theory Spec2Isabelle
  imports Main "HOL-Library.Word"
begin

section \<open>Machine integers and undefined behaviour\<close>

text \<open>
  The program (\<^verbatim>\<open>src/Graviton/q1.cpp\<close>) reads \<^verbatim>\<open>int\<close> values and keeps its
  offsets in \<^verbatim>\<open>long long\<close>. An \<^verbatim>\<open>int\<close> is a 32-bit word, a \<^verbatim>\<open>long long\<close> a
  64-bit word, both read as two's complement by \<open>sint\<close>.

  Four things are undefined or fatal in the C++ source and have no branch there: a signed
  addition or subtraction whose result does not fit, a vector read or write outside the
  vector, a \<^verbatim>\<open>resize\<close> to a negative size, and a read from an exhausted input. The model
  gives each an error value, so that "the code returns" is a statement that can be proved
  or refuted.
\<close>

type_synonym cint = "32 word"
type_synonym ll = "64 word"

datatype error = OutOfRange | Overflow | LengthError | EndOfInput

definition in_ll :: "int \<Rightarrow> bool" where
  "in_ll v \<longleftrightarrow> - (2 ^ 63) \<le> v \<and> v < 2 ^ 63"

definition in_cint :: "int \<Rightarrow> bool" where
  "in_cint v \<longleftrightarrow> - (2 ^ 31) \<le> v \<and> v < 2 ^ 31"

text \<open>\<^verbatim>\<open>a + b\<close> and \<^verbatim>\<open>a - b\<close> on \<^verbatim>\<open>long long\<close>.\<close>

definition add_ll :: "ll \<Rightarrow> ll \<Rightarrow> error + ll" where
  "add_ll a b = (if in_ll (sint a + sint b) then Inr (a + b) else Inl Overflow)"

definition sub_ll :: "ll \<Rightarrow> ll \<Rightarrow> error + ll" where
  "sub_ll a b = (if in_ll (sint a - sint b) then Inr (a - b) else Inl Overflow)"

text \<open>The implicit conversion of an \<^verbatim>\<open>int\<close> operand to \<^verbatim>\<open>long long\<close> (sign extension).\<close>

definition ll_of_cint :: "cint \<Rightarrow> ll" where
  "ll_of_cint c = signed c"

section \<open>The structure \<^verbatim>\<open>DSU\<close>\<close>

text \<open>
  \<^verbatim>\<open>vector<int> parent; vector<ll> diff;\<close> Element ids are positions of the two vectors;
  they are natural numbers here, and \<^verbatim>\<open>solve\<close> below converts the \<^verbatim>\<open>int\<close> it has read.
\<close>

record dsu =
  parent :: "nat list"
  diff :: "ll list"

text \<open>
  The constructor \<^verbatim>\<open>DSU(int n)\<close>: \<^verbatim>\<open>parent.resize(n + 1); iota(...); diff.assign(n + 1, 0)\<close>.
  The argument is the value of the \<^verbatim>\<open>int\<close>. \<open>n + 1\<close> is computed in \<^verbatim>\<open>int\<close> and overflows
  for the largest one; a negative \<open>n + 1\<close> is no size (\<^verbatim>\<open>resize\<close> throws), and \<open>n = -1\<close>
  gives two empty vectors.
\<close>

definition DSU :: "int \<Rightarrow> error + dsu" where
  "DSU n =
    (if \<not> in_cint (n + 1) then Inl Overflow
     else if n + 1 < 0 then Inl LengthError
     else Inr \<lparr>parent = [0..<nat (n + 1)], diff = replicate (nat (n + 1)) 0\<rparr>)"

text \<open>
  \<^verbatim>\<open>int find(int i)\<close>, lines 33-53. The recursion follows the parent pointers and does not
  end on a cycle, hence the option: \<open>None\<close> is "does not return".
\<close>

partial_function (option) find_dsu :: "dsu \<Rightarrow> nat \<Rightarrow> (error + nat \<times> dsu) option" where
  "find_dsu s i =
    (if \<not> i < length (parent s) then Some (Inl OutOfRange)
     else if parent s ! i = i then Some (Inr (i, s))
     else Option.bind (find_dsu s (parent s ! i)) (\<lambda>r.
       case r of
         Inl e \<Rightarrow> Some (Inl e)
       | Inr (root, s1) \<Rightarrow>
           if \<not> (i < length (parent s1) \<and> i < length (diff s1)
                 \<and> parent s1 ! i < length (diff s1))
           then Some (Inl OutOfRange)
           else (case add_ll (diff s1 ! i) (diff s1 ! (parent s1 ! i)) of
                   Inl e \<Rightarrow> Some (Inl e)
                 | Inr v \<Rightarrow>
                     Some (Inr (root, s1\<lparr>diff := (diff s1)[i := v],
                                          parent := (parent s1)[i := root]\<rparr>)))))"

declare find_dsu.simps [code]

text \<open>\<^verbatim>\<open>bool unite(int i, int j, int c)\<close>, lines 59-90.\<close>

definition unite :: "dsu \<Rightarrow> nat \<Rightarrow> nat \<Rightarrow> cint \<Rightarrow> (error + bool \<times> dsu) option" where
  "unite s i j c =
    Option.bind (find_dsu s i) (\<lambda>r1.
      case r1 of
        Inl e \<Rightarrow> Some (Inl e)
      | Inr (root_i, s1) \<Rightarrow>
    Option.bind (find_dsu s1 j) (\<lambda>r2.
      case r2 of
        Inl e \<Rightarrow> Some (Inl e)
      | Inr (root_j, s2) \<Rightarrow>
          Some
           (if \<not> (i < length (diff s2) \<and> j < length (diff s2)) then Inl OutOfRange
            else if root_i \<noteq> root_j then
              (if \<not> (root_i < length (parent s2) \<and> root_i < length (diff s2))
               then Inl OutOfRange
               else case sub_ll (diff s2 ! j) (diff s2 ! i) of
                      Inl e \<Rightarrow> Inl e
                    | Inr t \<Rightarrow>
                        (case add_ll t (ll_of_cint c) of
                           Inl e \<Rightarrow> Inl e
                         | Inr v \<Rightarrow>
                             Inr (True, s2\<lparr>parent := (parent s2)[root_i := root_j],
                                           diff := (diff s2)[root_i := v]\<rparr>)))
            else
              (case sub_ll (diff s2 ! i) (diff s2 ! j) of
                 Inl e \<Rightarrow> Inl e
               | Inr t \<Rightarrow>
                   if t \<noteq> ll_of_cint c then Inr (False, s2) else Inr (True, s2)))))"

section \<open>The driver \<^verbatim>\<open>solve\<close>\<close>

text \<open>
  The input stream is the list of the \<^verbatim>\<open>int\<close> values still to be read; a read from the
  empty stream is the error \<open>EndOfInput\<close>. The loop of lines 101-113, on the number of
  iterations left: each iteration reads three values, and calls \<^verbatim>\<open>unite\<close> only while
  \<^verbatim>\<open>consistent\<close> holds. A negative id is no position of a vector: the call with it is
  out of range.
\<close>

fun constraints_loop ::
  "nat \<Rightarrow> dsu \<Rightarrow> bool \<Rightarrow> cint list \<Rightarrow> (error + bool \<times> dsu \<times> cint list) option" where
  "constraints_loop 0 s consistent inp = Some (Inr (consistent, s, inp))"
| "constraints_loop (Suc k) s consistent inp =
    (case inp of
       i # j # c # rest \<Rightarrow>
         if consistent then
           (if sint i < 0 \<or> sint j < 0 then Some (Inl OutOfRange)
            else Option.bind (unite s (nat (sint i)) (nat (sint j)) c) (\<lambda>r.
              case r of
                Inl e \<Rightarrow> Some (Inl e)
              | Inr (ok, s') \<Rightarrow>
                  constraints_loop k s' (if \<not> ok then False else consistent) rest))
         else constraints_loop k s consistent rest
     | _ \<Rightarrow> Some (Inl EndOfInput))"

text \<open>\<^verbatim>\<open>void solve()\<close>, lines 94-120: the result is the text printed and the stream left.\<close>

definition solve :: "cint list \<Rightarrow> (error + string \<times> cint list) option" where
  "solve inp =
    (case inp of
       n # m # rest \<Rightarrow>
         (case DSU (sint n) of
            Inl e \<Rightarrow> Some (Inl e)
          | Inr s \<Rightarrow>
              Option.bind (constraints_loop (nat (sint m)) s True rest) (\<lambda>r.
                case r of
                  Inl e \<Rightarrow> Some (Inl e)
                | Inr (consistent, s', rest') \<Rightarrow>
                    Some (Inr (if consistent then ''YES'' @ [CHR 0x0A]
                               else ''NO'' @ [CHR 0x0A], rest'))))
     | _ \<Rightarrow> Some (Inl EndOfInput))"

section \<open>What the claims speak about\<close>

text \<open>
  The root reached from \<open>i\<close> by following parent pointers to a fixed point, the nodes met
  on the way (\<open>i\<close> first, the root last), and the sum of the offsets stored at the nodes
  below the root, read as integers. None of them changes the structure.
\<close>

partial_function (option) root_of :: "dsu \<Rightarrow> nat \<Rightarrow> nat option" where
  "root_of s i =
    (if \<not> i < length (parent s) then None
     else if parent s ! i = i then Some i
     else root_of s (parent s ! i))"

partial_function (option) path_to_root :: "dsu \<Rightarrow> nat \<Rightarrow> nat list option" where
  "path_to_root s i =
    (if \<not> i < length (parent s) then None
     else if parent s ! i = i then Some [i]
     else Option.bind (path_to_root s (parent s ! i)) (\<lambda>p. Some (i # p)))"

partial_function (option) offset_sum :: "dsu \<Rightarrow> nat \<Rightarrow> int option" where
  "offset_sum s i =
    (if \<not> (i < length (parent s) \<and> i < length (diff s)) then None
     else if parent s ! i = i then Some 0
     else Option.bind (offset_sum s (parent s ! i)) (\<lambda>v. Some (sint (diff s ! i) + v)))"

declare root_of.simps [code]
declare path_to_root.simps [code]
declare offset_sum.simps [code]

text \<open>
  A constraint \<open>(i, j, c)\<close> stands for \<open>x\<^sub>i - x\<^sub>j = c\<close>; an assignment gives every element
  an integer.
\<close>

type_synonym constraint = "nat \<times> nat \<times> cint"

definition satisfies :: "(nat \<Rightarrow> int) \<Rightarrow> constraint list \<Rightarrow> bool" where
  "satisfies x cs \<longleftrightarrow> list_all (\<lambda>(i, j, c). x i - x j = sint c) cs"

text \<open>
  The input of one test case after \<open>n\<close> and \<open>m\<close>: three values per constraint, as read.
  The element ids of a constraint are the values of the first two.
\<close>

fun tokens :: "(cint \<times> cint \<times> cint) list \<Rightarrow> cint list" where
  "tokens [] = []"
| "tokens ((i, j, c) # cs) = i # j # c # tokens cs"

definition as_constraint :: "cint \<times> cint \<times> cint \<Rightarrow> constraint" where
  "as_constraint t = (case t of (i, j, c) \<Rightarrow> (nat (sint i), nat (sint j), c))"

definition valid_ids :: "int \<Rightarrow> cint \<times> cint \<times> cint \<Rightarrow> bool" where
  "valid_ids n t =
    (case t of (i, j, c) \<Rightarrow> 0 \<le> sint i \<and> sint i \<le> n \<and> 0 \<le> sint j \<and> sint j \<le> n)"

text \<open>
  The states a \<^verbatim>\<open>DSU(n)\<close> can be in: freshly constructed, or after a call of \<^verbatim>\<open>find\<close> or
  \<^verbatim>\<open>unite\<close> that returned. The list holds the constraints \<^verbatim>\<open>unite\<close> has accepted,
  the latest first.
\<close>

inductive reach :: "int \<Rightarrow> constraint list \<Rightarrow> dsu \<Rightarrow> bool" for n :: int where
  fresh: "DSU n = Inr s \<Longrightarrow> reach n [] s"
| after_find: "reach n cs s \<Longrightarrow> find_dsu s i = Some (Inr (r, s')) \<Longrightarrow> reach n cs s'"
| after_unite:
    "reach n cs s \<Longrightarrow> unite s i j c = Some (Inr (True, s')) \<Longrightarrow> reach n ((i, j, c) # cs) s'"
| after_reject:
    "reach n cs s \<Longrightarrow> unite s i j c = Some (Inr (False, s')) \<Longrightarrow> reach n cs s'"

section \<open>The invariant\<close>

text \<open>
  The representation invariant is stated with three functions that are not part of the
  program: \<open>rt i\<close> is the root of the tree of \<open>i\<close>, \<open>pot i\<close> the value of \<open>x\<^sub>i\<close> when
  the root of its tree has the value 0, and \<open>h\<close> a height that drops along every parent
  pointer.
\<close>

definition forest_inv :: "dsu \<Rightarrow> (nat \<Rightarrow> nat) \<Rightarrow> (nat \<Rightarrow> int) \<Rightarrow> (nat \<Rightarrow> nat) \<Rightarrow> bool" where
  "forest_inv s rt pot h \<longleftrightarrow>
     length (diff s) = length (parent s) \<and>
     (\<forall>i<length (parent s).
        parent s ! i < length (parent s) \<and>
        rt i < length (parent s) \<and>
        parent s ! (rt i) = rt i \<and>
        rt (parent s ! i) = rt i \<and>
        (parent s ! i = i \<longrightarrow> rt i = i \<and> pot i = 0) \<and>
        (parent s ! i \<noteq> i \<longrightarrow> h (parent s ! i) < h i) \<and>
        sint (diff s ! i) = pot i - pot (parent s ! i))"

text \<open>
  The ghost functions explain the accepted constraints: \<open>pot\<close> satisfies each of them, and
  every assignment that satisfies them all agrees with \<open>pot\<close> on the difference between an
  element and its root.
\<close>

definition explains :: "nat \<Rightarrow> constraint list \<Rightarrow> (nat \<Rightarrow> nat) \<Rightarrow> (nat \<Rightarrow> int) \<Rightarrow> bool" where
  "explains N cs rt pot \<longleftrightarrow>
     list_all (\<lambda>(i, j, c). i < N \<and> j < N \<and> rt i = rt j \<and> pot i - pot j = sint c) cs \<and>
     (\<forall>x. satisfies x cs \<longrightarrow> (\<forall>i<N. x i - x (rt i) = pot i))"

text \<open>
  A weight per root bounds the differences inside its tree: a tree built by \<open>k\<close> merges
  spans at most \<open>k\<close> constraints, each of magnitude at most \<open>2\<^sup>3\<^sup>1\<close>. The weights add up
  to at most \<open>m\<close>, the number of constraints accepted.
\<close>

definition bounded :: "nat \<Rightarrow> nat \<Rightarrow> (nat \<Rightarrow> nat) \<Rightarrow> (nat \<Rightarrow> int) \<Rightarrow> nat list \<Rightarrow> bool" where
  "bounded N m rt pot w \<longleftrightarrow>
     length w = N \<and> sum_list w \<le> m \<and>
     (\<forall>i<N. \<forall>j<N. rt i = rt j \<longrightarrow> \<bar>pot i - pot j\<bar> \<le> 2 ^ 31 * int (w ! rt i))"

definition dsu_inv ::
  "int \<Rightarrow> constraint list \<Rightarrow> dsu \<Rightarrow> (nat \<Rightarrow> nat) \<Rightarrow> (nat \<Rightarrow> int) \<Rightarrow> (nat \<Rightarrow> nat) \<Rightarrow> nat list \<Rightarrow> bool"
  where
  "dsu_inv n cs s rt pot h w \<longleftrightarrow>
     forest_inv s rt pot h \<and> int (length (parent s)) = n + 1 \<and>
     explains (length (parent s)) cs rt pot \<and>
     bounded (length (parent s)) (length cs) rt pot w"

text \<open>The ghost functions after the tree of root \<open>ri\<close> has been hung under the root \<open>rj\<close>
  with the offset \<open>d\<close>.\<close>

definition merge_rt :: "(nat \<Rightarrow> nat) \<Rightarrow> nat \<Rightarrow> nat \<Rightarrow> nat \<Rightarrow> nat" where
  "merge_rt rt ri rj k = (if rt k = ri then rj else rt k)"

definition merge_pot :: "(nat \<Rightarrow> nat) \<Rightarrow> (nat \<Rightarrow> int) \<Rightarrow> nat \<Rightarrow> int \<Rightarrow> nat \<Rightarrow> int" where
  "merge_pot rt pot ri d k = (if rt k = ri then pot k + d else pot k)"

definition merge_h :: "(nat \<Rightarrow> nat) \<Rightarrow> (nat \<Rightarrow> nat) \<Rightarrow> nat \<Rightarrow> nat \<Rightarrow> nat \<Rightarrow> nat" where
  "merge_h rt h ri rj k = (if rt k = ri then h k + h rj + 1 else h k)"

definition merge_w :: "nat list \<Rightarrow> nat \<Rightarrow> nat \<Rightarrow> nat list" where
  "merge_w w ri rj = w[ri := 0, rj := w ! ri + w ! rj + 1]"

section \<open>A worked example\<close>

text \<open>
  The states of a \<^verbatim>\<open>DSU(3)\<close> on the scenario of the specification: fresh, after
  \<^verbatim>\<open>unite(1, 2, 5)\<close>, after \<^verbatim>\<open>unite(2, 3, 3)\<close>, and after a \<^verbatim>\<open>find(1)\<close> that compresses
  the chain 1, 2, 3.
\<close>

abbreviation ex0 :: dsu where "ex0 \<equiv> \<lparr>parent = [0, 1, 2, 3], diff = [0, 0, 0, 0]\<rparr>"
abbreviation ex1 :: dsu where "ex1 \<equiv> \<lparr>parent = [0, 2, 2, 3], diff = [0, 5, 0, 0]\<rparr>"
abbreviation ex2 :: dsu where "ex2 \<equiv> \<lparr>parent = [0, 2, 3, 3], diff = [0, 5, 3, 0]\<rparr>"
abbreviation ex3 :: dsu where "ex3 \<equiv> \<lparr>parent = [0, 3, 3, 3], diff = [0, 8, 3, 0]\<rparr>"

section \<open>Properties of the invariant\<close>

subsection \<open>Arithmetic\<close>

lemma sint_add_ll: "add_ll a b = Inr v \<Longrightarrow> sint v = sint a + sint b"
  by (auto simp: add_ll_def in_ll_def sint_word_ariths signed_take_bit_int_eq_self split: if_splits)

lemma sint_sub_ll: "sub_ll a b = Inr v \<Longrightarrow> sint v = sint a - sint b"
  by (auto simp: sub_ll_def in_ll_def sint_word_ariths signed_take_bit_int_eq_self split: if_splits)

lemma add_ll_Inl: "add_ll a b = Inl e \<Longrightarrow> e = Overflow \<and> \<not> in_ll (sint a + sint b)"
  by (auto simp: add_ll_def split: if_splits)

lemma sub_ll_Inl: "sub_ll a b = Inl e \<Longrightarrow> e = Overflow \<and> \<not> in_ll (sint a - sint b)"
  by (auto simp: sub_ll_def split: if_splits)

lemma sint_ll_of_cint: "sint (ll_of_cint c) = sint c"
  unfolding ll_of_cint_def
  by (rule sint_up_scast) (simp add: is_up)

subsection \<open>The forest\<close>

lemma forest_invD:
  assumes "forest_inv s rt pot h" and "i < length (parent s)"
  shows "parent s ! i < length (parent s)"
    and "rt i < length (parent s)"
    and "parent s ! (rt i) = rt i"
    and "rt (parent s ! i) = rt i"
    and "parent s ! i = i \<Longrightarrow> rt i = i"
    and "parent s ! i = i \<Longrightarrow> pot i = 0"
    and "parent s ! i \<noteq> i \<Longrightarrow> h (parent s ! i) < h i"
    and "sint (diff s ! i) = pot i - pot (parent s ! i)"
  using assms unfolding forest_inv_def by blast+

lemmas forest_simps = forest_invD

lemma forest_invI:
  assumes "length (diff s) = length (parent s)"
    and "\<And>i. i < length (parent s) \<Longrightarrow>
        parent s ! i < length (parent s) \<and>
        rt i < length (parent s) \<and>
        parent s ! (rt i) = rt i \<and>
        rt (parent s ! i) = rt i \<and>
        (parent s ! i = i \<longrightarrow> rt i = i \<and> pot i = 0) \<and>
        (parent s ! i \<noteq> i \<longrightarrow> h (parent s ! i) < h i) \<and>
        sint (diff s ! i) = pot i - pot (parent s ! i)"
  shows "forest_inv s rt pot h"
  unfolding forest_inv_def using assms by blast

lemma forest_inv_length: "forest_inv s rt pot h \<Longrightarrow> length (diff s) = length (parent s)"
  unfolding forest_inv_def by blast

lemma forest_rt_idem:
  assumes "forest_inv s rt pot h" and "i < length (parent s)"
  shows "rt (rt i) = rt i"
  using forest_invD(5) [OF assms(1) forest_invD(2) [OF assms] forest_invD(3) [OF assms]] .

lemma forest_pot_root:
  assumes "forest_inv s rt pot h" and "i < length (parent s)"
  shows "pot (rt i) = 0"
  using forest_invD(6) [OF assms(1) forest_invD(2) [OF assms] forest_invD(3) [OF assms]] .

lemma forest_diff_root:
  assumes "forest_inv s rt pot h" and "i < length (parent s)" and "parent s ! i = i"
  shows "diff s ! i = 0"
proof -
  have "sint (diff s ! i) = pot i - pot (parent s ! i)"
    using assms(1,2) by (rule forest_invD(8))
  with assms(3) have "sint (diff s ! i) = 0" by simp
  then show ?thesis by (simp add: signed_eq_0_iff)
qed

lemma forest_h_root:
  assumes inv: "forest_inv s rt pot h"
  shows "i < length (parent s) \<Longrightarrow> h (rt i) \<le> h i"
proof (induction "h i" arbitrary: i rule: less_induct)
  case less
  show ?case
  proof (cases "parent s ! i = i")
    case True
    with inv less.prems show ?thesis by (simp add: forest_invD(5))
  next
    case False
    let ?p = "parent s ! i"
    have p: "?p < length (parent s)" "h ?p < h i" "rt ?p = rt i"
      using inv less.prems False by (simp_all add: forest_simps)
    from less.hyps [OF p(2) p(1)] p show ?thesis by simp
  qed
qed

subsection \<open>Unfolding the recursions\<close>

lemma find_dsu_root:
  "i < length (parent s) \<Longrightarrow> parent s ! i = i \<Longrightarrow> find_dsu s i = Some (Inr (i, s))"
  by (subst find_dsu.simps) simp

lemma find_dsu_out: "\<not> i < length (parent s) \<Longrightarrow> find_dsu s i = Some (Inl OutOfRange)"
  by (subst find_dsu.simps) simp

lemma find_dsu_step:
  "i < length (parent s) \<Longrightarrow> parent s ! i \<noteq> i \<Longrightarrow>
   find_dsu s i =
     Option.bind (find_dsu s (parent s ! i)) (\<lambda>r.
       case r of
         Inl e \<Rightarrow> Some (Inl e)
       | Inr (root, s1) \<Rightarrow>
           if \<not> (i < length (parent s1) \<and> i < length (diff s1)
                 \<and> parent s1 ! i < length (diff s1))
           then Some (Inl OutOfRange)
           else (case add_ll (diff s1 ! i) (diff s1 ! (parent s1 ! i)) of
                   Inl e \<Rightarrow> Some (Inl e)
                 | Inr v \<Rightarrow>
                     Some (Inr (root, s1\<lparr>diff := (diff s1)[i := v],
                                          parent := (parent s1)[i := root]\<rparr>))))"
  by (subst find_dsu.simps) simp

lemma root_of_root: "i < length (parent s) \<Longrightarrow> parent s ! i = i \<Longrightarrow> root_of s i = Some i"
  by (subst root_of.simps) simp

lemma root_of_step:
  "i < length (parent s) \<Longrightarrow> parent s ! i \<noteq> i \<Longrightarrow> root_of s i = root_of s (parent s ! i)"
  by (subst root_of.simps) simp

lemma path_to_root_root:
  "i < length (parent s) \<Longrightarrow> parent s ! i = i \<Longrightarrow> path_to_root s i = Some [i]"
  by (subst path_to_root.simps) simp

lemma path_to_root_step:
  "i < length (parent s) \<Longrightarrow> parent s ! i \<noteq> i \<Longrightarrow>
   path_to_root s i = Option.bind (path_to_root s (parent s ! i)) (\<lambda>p. Some (i # p))"
  by (subst path_to_root.simps) simp

lemma offset_sum_root:
  "i < length (parent s) \<Longrightarrow> i < length (diff s) \<Longrightarrow> parent s ! i = i \<Longrightarrow>
   offset_sum s i = Some 0"
  by (subst offset_sum.simps) simp

lemma offset_sum_step:
  "i < length (parent s) \<Longrightarrow> i < length (diff s) \<Longrightarrow> parent s ! i \<noteq> i \<Longrightarrow>
   offset_sum s i =
     Option.bind (offset_sum s (parent s ! i)) (\<lambda>v. Some (sint (diff s ! i) + v))"
  by (subst offset_sum.simps) simp

subsection \<open>Paths, roots and offset sums\<close>

text \<open>Under the invariant the three observations are defined and are what the ghost
  functions say.\<close>

lemma forest_observe:
  assumes inv: "forest_inv s rt pot h"
  shows "i < length (parent s) \<Longrightarrow>
    root_of s i = Some (rt i) \<and> offset_sum s i = Some (pot i) \<and>
    (\<exists>p. path_to_root s i = Some p \<and> i \<in> set p \<and> rt i \<in> set p \<and>
       (\<forall>k\<in>set p. k < length (parent s) \<and> rt k = rt i))"
proof (induction "h i" arbitrary: i rule: less_induct)
  case less
  note i = less.prems
  have di: "i < length (diff s)" using i forest_inv_length [OF inv] by simp
  show ?case
  proof (cases "parent s ! i = i")
    case True
    then have "rt i = i" "pot i = 0" using inv i by (simp_all add: forest_simps)
    with True i di show ?thesis
      by (simp add: root_of_root offset_sum_root path_to_root_root)
  next
    case False
    define p where "p = parent s ! i"
    have p: "p < length (parent s)" "h p < h i" "rt p = rt i"
      using inv i False by (simp_all add: p_def forest_simps)
    from less.hyps [OF p(2) p(1)] p(3)
    obtain pp where IH: "root_of s p = Some (rt i)" "offset_sum s p = Some (pot p)"
      "path_to_root s p = Some pp" "rt i \<in> set pp"
      "\<forall>k\<in>set pp. k < length (parent s) \<and> rt k = rt i"
      by auto
    have "sint (diff s ! i) = pot i - pot p"
      using forest_invD(8) [OF inv i] by (simp add: p_def)
    with IH i di False show ?thesis
      by (simp add: root_of_step offset_sum_step path_to_root_step flip: p_def)
  qed
qed

text \<open>The path to the root meets no node twice: the height drops at every step.\<close>

lemma forest_path_distinct:
  assumes inv: "forest_inv s rt pot h"
  shows "i < length (parent s) \<Longrightarrow>
    \<exists>p. path_to_root s i = Some p \<and> distinct p \<and> hd p = i \<and> last p = rt i \<and>
        (\<forall>k\<in>set p. h k \<le> h i)"
proof (induction "h i" arbitrary: i rule: less_induct)
  case less
  note i = less.prems
  show ?case
  proof (cases "parent s ! i = i")
    case True
    then have "rt i = i" using inv i by (simp add: forest_simps)
    with True i show ?thesis by (simp add: path_to_root_root)
  next
    case False
    define p where "p = parent s ! i"
    have p: "p < length (parent s)" "h p < h i" "rt p = rt i"
      using inv i False by (simp_all add: p_def forest_simps)
    from less.hyps [OF p(2) p(1)] p(3)
    obtain pp where IH: "path_to_root s p = Some pp" "distinct pp" "last pp = rt i"
      "hd pp = p" "\<forall>k\<in>set pp. h k \<le> h p"
      by auto
    have "pp \<noteq> []" using IH(1) p(1)
      by (subst (asm) path_to_root.simps) (auto simp: bind_eq_Some_conv split: if_splits)
    moreover have "i \<notin> set pp" using IH(5) p(2) by auto
    moreover have "\<forall>k\<in>set pp. h k \<le> h i" using IH(5) p(2) by auto
    ultimately show ?thesis
      using IH i False by (simp add: path_to_root_step flip: p_def)
  qed
qed

subsection \<open>\<^verbatim>\<open>find\<close> under the invariant\<close>

text \<open>Compressing one node keeps the invariant.\<close>

lemma forest_inv_compress:
  assumes inv: "forest_inv s rt pot h"
    and i: "i < length (parent s)"
    and v: "sint v = pot i"
  shows "forest_inv (s\<lparr>diff := (diff s)[i := v], parent := (parent s)[i := rt i]\<rparr>) rt pot h"
proof -
  let ?N = "length (parent s)"
  let ?s = "s\<lparr>diff := (diff s)[i := v], parent := (parent s)[i := rt i]\<rparr>"
  have len: "length (diff s) = ?N" using inv by (rule forest_inv_length)
  have ri: "rt i < ?N" "rt (rt i) = rt i" "pot (rt i) = 0" "h (rt i) \<le> h i"
    using inv i by (simp_all add: forest_invD(2) forest_rt_idem forest_pot_root forest_h_root)
  have root_fix: "parent ?s ! (rt k) = rt k" if "k < ?N" for k
  proof (cases "rt k = i")
    case True
    then have "rt i = i" using forest_rt_idem [OF inv that] by simp
    with True i show ?thesis by simp
  next
    case False
    then show ?thesis using forest_invD(3) [OF inv that] by simp
  qed
  have node: "parent ?s ! k < ?N \<and> rt k < ?N \<and> rt (parent ?s ! k) = rt k \<and>
      (parent ?s ! k = k \<longrightarrow> rt k = k \<and> pot k = 0) \<and>
      (parent ?s ! k \<noteq> k \<longrightarrow> h (parent ?s ! k) < h k) \<and>
      sint (diff ?s ! k) = pot k - pot (parent ?s ! k)" if k: "k < ?N" for k
  proof (cases "k = i")
    case False
    then show ?thesis
      using inv k by (simp add: forest_simps)
  next
    case True
    have "h (rt i) < h i" if "rt i \<noteq> i"
    proof (cases "parent s ! i = i")
      case True
      with inv i that show ?thesis by (simp add: forest_invD(5))
    next
      case False
      have "h (rt (parent s ! i)) \<le> h (parent s ! i)"
        using inv forest_invD(1) [OF inv i] by (rule forest_h_root)
      moreover have "h (parent s ! i) < h i" using inv i False by (rule forest_invD(7))
      ultimately show ?thesis using forest_invD(4) [OF inv i] by simp
    qed
    moreover have "pot i = 0" if "rt i = i"
      using that ri(3) by simp
    ultimately show ?thesis using True i ri len v by auto
  qed
  show ?thesis
  proof (rule forest_invI)
    show "length (diff ?s) = length (parent ?s)" using len by simp
  next
    fix k
    assume "k < length (parent ?s)"
    then have k: "k < ?N" by simp
    from node [OF k] root_fix [OF k]
    show "parent ?s ! k < length (parent ?s) \<and> rt k < length (parent ?s) \<and>
      parent ?s ! (rt k) = rt k \<and> rt (parent ?s ! k) = rt k \<and>
      (parent ?s ! k = k \<longrightarrow> rt k = k \<and> pot k = 0) \<and>
      (parent ?s ! k \<noteq> k \<longrightarrow> h (parent ?s ! k) < h k) \<and>
      sint (diff ?s ! k) = pot k - pot (parent ?s ! k)"
      by simp
  qed
qed

lemma find_dsu_forest:
  assumes inv: "forest_inv s rt pot h"
  shows "i < length (parent s) \<Longrightarrow>
    (case find_dsu s i of
       None \<Rightarrow> False
     | Some (Inl e) \<Rightarrow> e = Overflow \<and> (\<exists>k<length (parent s). \<not> in_ll (pot k))
     | Some (Inr (r, s')) \<Rightarrow>
         r = rt i \<and> forest_inv s' rt pot h \<and> length (parent s') = length (parent s) \<and>
         parent s' ! i = rt i \<and>
         (\<forall>k<length (parent s). parent s' ! k = parent s ! k \<or> parent s' ! k = rt k) \<and>
         (\<forall>p. path_to_root s i = Some p \<longrightarrow> (\<forall>k\<in>set p. parent s' ! k = rt k)))"
proof (induction "h i" arbitrary: i rule: less_induct)
  case less
  let ?N = "length (parent s)"
  note i = less.prems
  show ?case
  proof (cases "parent s ! i = i")
    case True
    then have "rt i = i" using inv i by (simp add: forest_simps)
    with True i inv show ?thesis by (simp add: find_dsu_root path_to_root_root)
  next
    case False
    define p where "p = parent s ! i"
    have p: "p < ?N" "h p < h i" "rt p = rt i"
      using inv i False by (simp_all add: p_def forest_simps)
    note IH = less.hyps [OF p(2) p(1)]
    note step = find_dsu_step [OF i False, folded p_def]
    show ?thesis
    proof (cases "find_dsu s p")
      case None
      with IH show ?thesis by simp
    next
      case (Some res)
      show ?thesis
      proof (cases res)
        case (Inl e)
        with Some IH step show ?thesis by simp
      next
        case (Inr rs)
        obtain r s1 where rs: "rs = (r, s1)" by (cases rs)
        from IH Some Inr rs have r: "r = rt i"
          and inv1: "forest_inv s1 rt pot h"
          and len1: "length (parent s1) = ?N"
          and frame1: "\<forall>k<?N. parent s1 ! k = parent s ! k \<or> parent s1 ! k = rt k"
          and path1: "\<forall>p'. path_to_root s p = Some p' \<longrightarrow> (\<forall>k\<in>set p'. parent s1 ! k = rt k)"
          using p(3) by simp_all
        have dlen1: "length (diff s1) = ?N" using forest_inv_length [OF inv1] len1 by simp
        define q where "q = parent s1 ! i"
        have i1: "i < length (parent s1)" using i len1 by simp
        have q: "q < ?N" using forest_invD(1) [OF inv1 i1] len1 by (simp add: q_def)
        have q1: "q < length (parent s1)" using q len1 by simp
        have "q = p \<or> q = rt i" using frame1 i by (auto simp: q_def p_def)
        moreover have "parent s1 ! p = rt p"
          using IH Some Inr rs by simp
        ultimately have qroot: "parent s1 ! q = rt q"
          using forest_invD(3) [OF inv1 i1] forest_rt_idem [OF inv1 i1] by auto
        have "pot (rt q) = 0" using inv1 q1 by (rule forest_pot_root)
        then have dq: "sint (diff s1 ! q) = pot q"
          using forest_invD(8) [OF inv1 q1] qroot by simp
        have di: "sint (diff s1 ! i) = pot i - pot q"
          using forest_invD(8) [OF inv1 i1] by (simp add: q_def)
        have sum: "sint (diff s1 ! i) + sint (diff s1 ! q) = pot i" using dq di by simp
        show ?thesis
        proof (cases "add_ll (diff s1 ! i) (diff s1 ! q)")
          case (Inl e)
          from add_ll_Inl [OF Inl] sum have "e = Overflow" "\<not> in_ll (pot i)" by simp_all
          with i have "\<exists>k<?N. \<not> in_ll (pot k)" by blast
          with Some Inr rs step Inl i len1 dlen1 q \<open>e = Overflow\<close>
          show ?thesis by (simp add: q_def)
        next
          case (Inr v)
          have v: "sint v = pot i" using sint_add_ll [OF Inr] sum by simp
          let ?s' = "s1\<lparr>diff := (diff s1)[i := v], parent := (parent s1)[i := rt i]\<rparr>"
          have res: "find_dsu s i = Some (Inr (rt i, ?s'))"
            using Some \<open>res = Inr rs\<close> rs step Inr i len1 dlen1 q r by (simp add: q_def)
          have "forest_inv ?s' rt pot h" using inv1 i1 v by (rule forest_inv_compress)
          moreover have "\<forall>k<?N. parent ?s' ! k = parent s ! k \<or> parent ?s' ! k = rt k"
            using frame1 len1 i1 by (auto simp: nth_list_update)
          moreover have "\<forall>k\<in>set pp. parent ?s' ! k = rt k"
            if pp: "path_to_root s i = Some pp" for pp
          proof -
            from pp path_to_root_step [OF i False, folded p_def]
            obtain p' where p': "path_to_root s p = Some p'" "pp = i # p'"
              by (auto simp: bind_eq_Some_conv)
            have "parent ?s' ! k = rt k" if "k \<in> set p'" for k
            proof (cases "k = i")
              case True
              with i1 show ?thesis by simp
            next
              case False
              with path1 p'(1) that show ?thesis by simp
            qed
            with p'(2) i1 show ?thesis by simp
          qed
          ultimately show ?thesis using res len1 i by simp
        qed
      qed
    qed
  qed
qed

subsection \<open>Hanging one tree under another\<close>

lemma forest_inv_merge:
  assumes inv: "forest_inv s rt pot h"
    and ri: "ri < length (parent s)" "parent s ! ri = ri"
    and rj: "rj < length (parent s)" "parent s ! rj = rj"
    and ne: "ri \<noteq> rj"
    and v: "sint v = d"
  shows "forest_inv (s\<lparr>parent := (parent s)[ri := rj], diff := (diff s)[ri := v]\<rparr>)
           (merge_rt rt ri rj) (merge_pot rt pot ri d) (merge_h rt h ri rj)"
proof (rule forest_invI)
  let ?N = "length (parent s)"
  let ?s = "s\<lparr>parent := (parent s)[ri := rj], diff := (diff s)[ri := v]\<rparr>"
  have len: "length (diff s) = ?N" using inv by (rule forest_inv_length)
  show "length (diff ?s) = length (parent ?s)" using len by simp
  have rri: "rt ri = ri" "pot ri = 0" and rrj: "rt rj = rj" "pot rj = 0"
    using inv ri rj by (simp_all add: forest_simps)
  fix k
  assume "k < length (parent ?s)"
  then have k: "k < ?N" by simp
  note K = forest_invD [OF inv k]
  have pk: "parent s ! k < ?N" by (rule K(1))
  show "parent ?s ! k < length (parent ?s) \<and>
        merge_rt rt ri rj k < length (parent ?s) \<and>
        parent ?s ! merge_rt rt ri rj k = merge_rt rt ri rj k \<and>
        merge_rt rt ri rj (parent ?s ! k) = merge_rt rt ri rj k \<and>
        (parent ?s ! k = k \<longrightarrow> merge_rt rt ri rj k = k \<and> merge_pot rt pot ri d k = 0) \<and>
        (parent ?s ! k \<noteq> k \<longrightarrow> merge_h rt h ri rj (parent ?s ! k) < merge_h rt h ri rj k) \<and>
        sint (diff ?s ! k) = merge_pot rt pot ri d k - merge_pot rt pot ri d (parent ?s ! k)"
  proof (cases "k = ri")
    case True
    with ri rj ne rri rrj len v show ?thesis
      by (simp add: merge_rt_def merge_pot_def merge_h_def)
  next
    case False
    with K ri rj ne rri rrj len k show ?thesis
      by (auto simp: merge_rt_def merge_pot_def merge_h_def)
  qed
qed

lemma satisfies_Cons:
  "satisfies x ((i, j, c) # cs) \<longleftrightarrow> x i - x j = sint c \<and> satisfies x cs"
  by (simp add: satisfies_def)

lemma explains_merge:
  assumes ex: "explains N cs rt pot"
    and i: "i < N" and j: "j < N" and ne: "rt i \<noteq> rt j"
    and d: "d = pot j - pot i + sint c"
  shows "explains N ((i, j, c) # cs) (merge_rt rt (rt i) (rt j)) (merge_pot rt pot (rt i) d)"
proof -
  let ?rt = "merge_rt rt (rt i) (rt j)" and ?pot = "merge_pot rt pot (rt i) d"
  have old: "list_all (\<lambda>(a, b, c). a < N \<and> b < N \<and> rt a = rt b \<and> pot a - pot b = sint c) cs"
    and sound: "\<And>x k. satisfies x cs \<Longrightarrow> k < N \<Longrightarrow> x k - x (rt k) = pot k"
    using ex unfolding explains_def by blast+
  have "list_all (\<lambda>(a, b, c). a < N \<and> b < N \<and> ?rt a = ?rt b \<and> ?pot a - ?pot b = sint c) cs"
    using old by (induction cs) (auto simp: merge_rt_def merge_pot_def)
  moreover have "?rt i = ?rt j" "?pot i - ?pot j = sint c"
    using ne d by (simp_all add: merge_rt_def merge_pot_def)
  moreover have "x k - x (?rt k) = ?pot k"
    if x: "satisfies x ((i, j, c) # cs)" and k: "k < N" for x k
  proof -
    from x have c: "x i - x j = sint c" and xs: "satisfies x cs"
      by (simp_all add: satisfies_Cons)
    show ?thesis
    proof (cases "rt k = rt i")
      case True
      have "x k - x (rt j) = pot k + d"
        using sound [OF xs k] sound [OF xs i] sound [OF xs j] c d True by simp
      with True show ?thesis by (simp add: merge_rt_def merge_pot_def)
    next
      case False
      with sound [OF xs k] show ?thesis by (simp add: merge_rt_def merge_pot_def)
    qed
  qed
  ultimately show ?thesis using i j unfolding explains_def by simp
qed

lemma explains_same:
  assumes ex: "explains N cs rt pot"
    and i: "i < N" and j: "j < N" and eq: "rt i = rt j"
  shows "pot i - pot j = sint c \<Longrightarrow> explains N ((i, j, c) # cs) rt pot"
    and "pot i - pot j \<noteq> sint c \<Longrightarrow> \<not> satisfies x ((i, j, c) # cs)"
proof -
  have sound: "\<And>x k. satisfies x cs \<Longrightarrow> k < N \<Longrightarrow> x k - x (rt k) = pot k"
    using ex unfolding explains_def by blast
  show "explains N ((i, j, c) # cs) rt pot" if "pot i - pot j = sint c"
    using ex that i j eq unfolding explains_def by (simp add: satisfies_Cons)
  show "\<not> satisfies x ((i, j, c) # cs)" if ne: "pot i - pot j \<noteq> sint c"
  proof
    assume x: "satisfies x ((i, j, c) # cs)"
    then have c: "x i - x j = sint c" and xs: "satisfies x cs"
      by (simp_all add: satisfies_Cons)
    from sound [OF xs i] sound [OF xs j] eq c ne show False by simp
  qed
qed

lemma explains_pot:
  assumes "explains N cs rt pot"
  shows "satisfies pot cs"
proof -
  have "list_all (\<lambda>(a, b, c). a < N \<and> b < N \<and> rt a = rt b \<and> pot a - pot b = sint c) cs"
    using assms unfolding explains_def by blast
  then show ?thesis unfolding satisfies_def by (induction cs) auto
qed

lemma sum_list_merge_w:
  assumes "ri < length w" and "rj < length w" and "ri \<noteq> rj"
  shows "sum_list (merge_w w ri rj) = Suc (sum_list w)"
proof -
  have "w ! ri \<le> sum_list w" using assms(1) by (simp add: elem_le_sum_list)
  then show ?thesis
    using assms unfolding merge_w_def by (simp add: sum_list_update)
qed

lemma abs_sint_cint: "\<bar>sint (c :: cint)\<bar> \<le> 2 ^ 31"
  using sint_ge [of c] sint_lt [of c] by simp

lemma bounded_merge:
  assumes bd: "bounded N m rt pot w"
    and i: "i < N" and j: "j < N" and ne: "rt i \<noteq> rt j"
    and ri: "rt i < N" and rj: "rt j < N"
    and d: "d = pot j - pot i + sint (c :: cint)"
  shows "bounded N (Suc m) (merge_rt rt (rt i) (rt j)) (merge_pot rt pot (rt i) d)
           (merge_w w (rt i) (rt j))"
proof -
  let ?rt = "merge_rt rt (rt i) (rt j)" and ?pot = "merge_pot rt pot (rt i) d"
  let ?w = "merge_w w (rt i) (rt j)"
  have len: "length w = N" and sum: "sum_list w \<le> m"
    and pair: "\<And>a b. a < N \<Longrightarrow> b < N \<Longrightarrow> rt a = rt b \<Longrightarrow>
        \<bar>pot a - pot b\<bar> \<le> 2 ^ 31 * int (w ! rt a)"
    using bd unfolding bounded_def by blast+
  have wj: "?w ! rt j = w ! rt i + w ! rt j + 1"
    and wo: "\<And>r. r \<noteq> rt i \<Longrightarrow> r \<noteq> rt j \<Longrightarrow> ?w ! r = w ! r"
    using ri rj len by (simp_all add: merge_w_def)
  have "\<bar>?pot a - ?pot b\<bar> \<le> 2 ^ 31 * int (?w ! ?rt a)"
    if a: "a < N" and b: "b < N" and eq: "?rt a = ?rt b" for a b
  proof -
    consider (ii) "rt a = rt i" "rt b = rt i"
      | (ij) "rt a = rt i" "rt b = rt j"
      | (ji) "rt a = rt j" "rt b = rt i"
      | (oo) "rt a \<noteq> rt i" "rt b \<noteq> rt i" "rt a = rt b"
      using eq ne by (auto simp: merge_rt_def split: if_splits)
    then show ?thesis
    proof cases
      case ii
      with pair [OF a b] wj show ?thesis
        by (simp add: merge_rt_def merge_pot_def algebra_simps)
    next
      case ij
      have "\<bar>pot a - pot i\<bar> \<le> 2 ^ 31 * int (w ! rt i)"
        using pair [OF a i] ij by simp
      moreover have "\<bar>pot j - pot b\<bar> \<le> 2 ^ 31 * int (w ! rt j)"
        using pair [OF j b] ij by simp
      moreover have "?pot a - ?pot b = (pot a - pot i) + (pot j - pot b) + sint c"
        using ij ne d by (simp add: merge_pot_def)
      ultimately show ?thesis
        using abs_sint_cint [of c] ij wj by (simp add: merge_rt_def algebra_simps)
    next
      case ji
      have "\<bar>pot b - pot i\<bar> \<le> 2 ^ 31 * int (w ! rt i)"
        using pair [OF b i] ji by simp
      moreover have "\<bar>pot j - pot a\<bar> \<le> 2 ^ 31 * int (w ! rt j)"
        using pair [OF j a] ji by simp
      moreover have "?pot a - ?pot b = - ((pot b - pot i) + (pot j - pot a) + sint c)"
        using ji ne d by (simp add: merge_pot_def)
      ultimately show ?thesis
        using abs_sint_cint [of c] ji wj ne by (simp add: merge_rt_def algebra_simps)
    next
      case oo
      show ?thesis
      proof (cases "rt a = rt j")
        case True
        with pair [OF a b] oo wj show ?thesis
          by (simp add: merge_rt_def merge_pot_def algebra_simps)
      next
        case False
        with pair [OF a b] oo wo [of "rt a"] show ?thesis
          by (simp add: merge_rt_def merge_pot_def)
      qed
    qed
  qed
  moreover have "sum_list ?w \<le> Suc m"
    using sum_list_merge_w [of "rt i" w "rt j"] ri rj ne len sum by simp
  moreover have "length ?w = N" using len by (simp add: merge_w_def)
  ultimately show ?thesis unfolding bounded_def by blast
qed

lemma bounded_mono: "bounded N m rt pot w \<Longrightarrow> m \<le> m' \<Longrightarrow> bounded N m' rt pot w"
  unfolding bounded_def by auto

text \<open>With fewer than \<open>2\<^sup>3\<^sup>1\<close> accepted constraints every offset to the root is far inside
  the range of \<^verbatim>\<open>long long\<close>.\<close>

lemma bounded_pot:
  assumes bd: "bounded N m rt pot w" and inv: "forest_inv s rt pot h"
    and N: "N = length (parent s)" and k: "k < N"
  shows "\<bar>pot k\<bar> \<le> 2 ^ 31 * int m"
proof -
  have rk: "rt k < N" "rt (rt k) = rt k" "pot (rt k) = 0"
    using inv k N by (simp_all add: forest_simps forest_rt_idem forest_pot_root)
  have pair: "\<And>a b. a < N \<Longrightarrow> b < N \<Longrightarrow> rt a = rt b \<Longrightarrow>
        \<bar>pot a - pot b\<bar> \<le> 2 ^ 31 * int (w ! rt a)"
    using bd unfolding bounded_def by blast
  have "\<bar>pot k - pot (rt k)\<bar> \<le> 2 ^ 31 * int (w ! rt k)"
    using pair [OF k rk(1)] rk(2) by simp
  moreover have "w ! rt k \<le> sum_list w"
    using bd rk(1) unfolding bounded_def by (simp add: elem_le_sum_list)
  moreover have "sum_list w \<le> m" using bd unfolding bounded_def by simp
  ultimately have "\<bar>pot k\<bar> \<le> 2 ^ 31 * int (w ! rt k)" "w ! rt k \<le> m"
    using rk(3) by simp_all
  then show ?thesis
    by (smt (verit) mult_left_mono of_nat_le_iff zero_le_numeral zero_le_power)
qed

subsection \<open>What a call of \<^verbatim>\<open>find\<close> returns\<close>

lemma find_dsu_Inr:
  assumes inv: "forest_inv s rt pot h" and res: "find_dsu s i = Some (Inr (r, s'))"
  shows "i < length (parent s)" and "r = rt i" and "forest_inv s' rt pot h"
    and "length (parent s') = length (parent s)" and "parent s' ! i = rt i"
    and "\<And>k. k < length (parent s) \<Longrightarrow> parent s ! k = rt k \<Longrightarrow> parent s' ! k = rt k"
    and "\<And>p k. path_to_root s i = Some p \<Longrightarrow> k \<in> set p \<Longrightarrow> parent s' ! k = rt k"
proof -
  show i: "i < length (parent s)"
    using res find_dsu_out [of i s] by (cases "i < length (parent s)") simp_all
  note F = find_dsu_forest [OF inv i, unfolded res, simplified]
  from F show "r = rt i" "forest_inv s' rt pot h" "length (parent s') = length (parent s)"
    "parent s' ! i = rt i" by simp_all
  from F show "parent s' ! k = rt k" if "k < length (parent s)" "parent s ! k = rt k" for k
    using that by auto
  from F show "parent s' ! k = rt k" if "path_to_root s i = Some p" "k \<in> set p" for p k
    using that by auto
qed

lemma find_dsu_Inl:
  assumes inv: "forest_inv s rt pot h" and res: "find_dsu s i = Some (Inl e)"
  shows "(e = OutOfRange \<and> \<not> i < length (parent s)) \<or>
         (e = Overflow \<and> (\<exists>k<length (parent s). \<not> in_ll (pot k)))"
proof (cases "i < length (parent s)")
  case True
  from find_dsu_forest [OF inv True, unfolded res] show ?thesis by simp
next
  case False
  with res find_dsu_out [of i s] show ?thesis by simp
qed

lemma find_dsu_not_None:
  assumes inv: "forest_inv s rt pot h"
  shows "find_dsu s i \<noteq> None"
proof (cases "i < length (parent s)")
  case True
  from find_dsu_forest [OF inv True] show ?thesis by (cases "find_dsu s i") simp_all
next
  case False
  then show ?thesis by (simp add: find_dsu_out)
qed

lemma find_dsu_total:
  assumes inv: "forest_inv s rt pot h" and i: "i < length (parent s)"
    and fit: "\<forall>k<length (parent s). in_ll (pot k)"
  shows "\<exists>s'. find_dsu s i = Some (Inr (rt i, s'))"
proof (cases "find_dsu s i")
  case None
  with find_dsu_not_None [OF inv, of i] show ?thesis by simp
next
  case (Some res)
  show ?thesis
  proof (cases res)
    case (Inl e)
    with Some find_dsu_Inl [OF inv, of i e] i fit show ?thesis by auto
  next
    case (Inr rs)
    with Some find_dsu_Inr(2) [OF inv, of i "fst rs" "snd rs"] show ?thesis by (cases rs) simp
  qed
qed

lemma forest_compressed:
  assumes "forest_inv s rt pot h" and "i < length (parent s)" and "parent s ! i = rt i"
  shows "sint (diff s ! i) = pot i"
  using forest_invD(8) [OF assms(1,2)] forest_pot_root [OF assms(1,2)] assms(3) by simp

subsection \<open>\<^verbatim>\<open>unite\<close> under the invariant\<close>

text \<open>The state after the two calls of \<^verbatim>\<open>find\<close> at the head of \<^verbatim>\<open>unite\<close>.\<close>

lemma two_finds:
  assumes inv: "forest_inv s rt pot h"
    and f1: "find_dsu s i = Some (Inr (ri, s1))"
    and f2: "find_dsu s1 j = Some (Inr (rj, s2))"
  shows "i < length (parent s)" and "j < length (parent s)"
    and "ri = rt i" and "rj = rt j"
    and "forest_inv s2 rt pot h" and "length (parent s2) = length (parent s)"
    and "length (diff s2) = length (parent s)"
    and "parent s2 ! i = rt i" and "parent s2 ! j = rt j"
    and "sint (diff s2 ! i) = pot i" and "sint (diff s2 ! j) = pot j"
proof -
  note A = find_dsu_Inr [OF inv f1]
  note B = find_dsu_Inr [OF A(3) f2]
  show i: "i < length (parent s)" by (rule A(1))
  show j: "j < length (parent s)" using B(1) A(4) by simp
  show "ri = rt i" "rj = rt j" by (rule A(2), rule B(2))
  show inv2: "forest_inv s2 rt pot h" by (rule B(3))
  show len: "length (parent s2) = length (parent s)" using A(4) B(4) by simp
  show "length (diff s2) = length (parent s)" using forest_inv_length [OF inv2] len by simp
  show pi: "parent s2 ! i = rt i" using B(6) [of i] A(4,5) i by simp
  show pj: "parent s2 ! j = rt j" by (rule B(5))
  show "sint (diff s2 ! i) = pot i" using inv2 i pi len by (simp add: forest_compressed)
  show "sint (diff s2 ! j) = pot j" using inv2 j pj len by (simp add: forest_compressed)
qed

lemma unite_after_finds:
  assumes "find_dsu s i = Some (Inr (root_i, s1))" and "find_dsu s1 j = Some (Inr (root_j, s2))"
  shows "unite s i j c =
          Some
           (if \<not> (i < length (diff s2) \<and> j < length (diff s2)) then Inl OutOfRange
            else if root_i \<noteq> root_j then
              (if \<not> (root_i < length (parent s2) \<and> root_i < length (diff s2))
               then Inl OutOfRange
               else case sub_ll (diff s2 ! j) (diff s2 ! i) of
                      Inl e \<Rightarrow> Inl e
                    | Inr t \<Rightarrow>
                        (case add_ll t (ll_of_cint c) of
                           Inl e \<Rightarrow> Inl e
                         | Inr v \<Rightarrow>
                             Inr (True, s2\<lparr>parent := (parent s2)[root_i := root_j],
                                           diff := (diff s2)[root_i := v]\<rparr>)))
            else
              (case sub_ll (diff s2 ! i) (diff s2 ! j) of
                 Inl e \<Rightarrow> Inl e
               | Inr t \<Rightarrow>
                   if t \<noteq> ll_of_cint c then Inr (False, s2) else Inr (True, s2)))"
  using assms by (simp add: unite_def)

lemma unite_Inr_finds:
  assumes "unite s i j c = Some (Inr (ok, s'))"
  obtains ri s1 rj s2 where "find_dsu s i = Some (Inr (ri, s1))"
    and "find_dsu s1 j = Some (Inr (rj, s2))"
proof (cases "find_dsu s i")
  case None
  with assms show ?thesis by (simp add: unite_def)
next
  case (Some r1)
  show ?thesis
  proof (cases r1)
    case (Inl e)
    with Some assms show ?thesis by (simp add: unite_def)
  next
    case (Inr p1)
    obtain ri s1 where p1: "p1 = (ri, s1)" by (cases p1)
    with Inr have f1: "find_dsu s i = Some (Inr (ri, s1))" using Some by simp
    show ?thesis
    proof (cases "find_dsu s1 j")
      case None
      with f1 assms show ?thesis by (simp add: unite_def)
    next
      case (Some r2)
      show ?thesis
      proof (cases r2)
        case (Inl e)
        with Some f1 assms show ?thesis by (simp add: unite_def)
      next
        case (Inr p2)
        then have "find_dsu s1 j = Some (Inr (fst p2, snd p2))" using Some by simp
        with f1 that show ?thesis by blast
      qed
    qed
  qed
qed

lemma dsu_invD:
  assumes "dsu_inv n cs s rt pot h w"
  shows "forest_inv s rt pot h" and "int (length (parent s)) = n + 1"
    and "explains (length (parent s)) cs rt pot"
    and "bounded (length (parent s)) (length cs) rt pot w"
  using assms unfolding dsu_inv_def by blast+

lemma dsu_inv_find:
  assumes inv: "dsu_inv n cs s rt pot h w" and res: "find_dsu s i = Some (Inr (r, s'))"
  shows "dsu_inv n cs s' rt pot h w"
  using find_dsu_Inr(3,4) [OF dsu_invD(1) [OF inv] res] dsu_invD(2-4) [OF inv]
  unfolding dsu_inv_def by simp

lemma sint_neq: "a \<noteq> b \<Longrightarrow> sint a \<noteq> sint b" for a b :: ll
  by (auto dest: signed_word_eqI)

lemma unite_Inr:
  assumes inv: "dsu_inv n cs s rt pot h w" and res: "unite s i j c = Some (Inr (ok, s'))"
  shows "(ok \<longrightarrow> (\<exists>rt' pot' h' w'. dsu_inv n ((i, j, c) # cs) s' rt' pot' h' w')) \<and>
         (\<not> ok \<longrightarrow> dsu_inv n cs s' rt pot h w \<and> (\<forall>x. \<not> satisfies x ((i, j, c) # cs)))"
proof -
  let ?N = "length (parent s)"
  note finv = dsu_invD(1) [OF inv]
  from res obtain ri s1 rj s2 where f1: "find_dsu s i = Some (Inr (ri, s1))"
    and f2: "find_dsu s1 j = Some (Inr (rj, s2))" by (rule unite_Inr_finds)
  note T = two_finds [OF finv f1 f2]
  note i = T(1) and j = T(2) and inv2 = T(5) and len = T(6) and dlen = T(7)
  have inv2': "dsu_inv n cs s2 rt pot h w"
    using inv f1 f2 by (blast intro: dsu_inv_find)
  have ex: "explains ?N cs rt pot" and bd: "bounded ?N (length cs) rt pot w"
    using dsu_invD(3,4) [OF inv] by simp_all
  have i2: "i < length (parent s2)" and j2: "j < length (parent s2)"
    using i j len by simp_all
  have ri: "rt i < ?N" "parent s2 ! rt i = rt i" and rj: "rt j < ?N" "parent s2 ! rt j = rt j"
    using forest_invD(2,3) [OF inv2 i2] forest_invD(2,3) [OF inv2 j2] len by simp_all
  note U = unite_after_finds [OF f1 f2, of c, unfolded res T(3,4)]
  show ?thesis
  proof (cases "rt i = rt j")
    case True
    from U True i j dlen obtain t where t: "sub_ll (diff s2 ! i) (diff s2 ! j) = Inr t"
      and r: "(ok, s') = (if t \<noteq> ll_of_cint c then (False, s2) else (True, s2))"
      by (cases "sub_ll (diff s2 ! i) (diff s2 ! j)") (auto split: if_splits)
    have st: "sint t = pot i - pot j" using sint_sub_ll [OF t] T(10,11) by simp
    show ?thesis
    proof (cases "t = ll_of_cint c")
      case True
      then have "pot i - pot j = sint c" using st by (simp add: sint_ll_of_cint)
      from explains_same(1) [OF ex i j \<open>rt i = rt j\<close> this]
      have "explains ?N ((i, j, c) # cs) rt pot" .
      moreover have "bounded ?N (length ((i, j, c) # cs)) rt pot w"
        using bd by (rule bounded_mono) simp
      moreover have "ok" "s' = s2" using r True by simp_all
      ultimately have "dsu_inv n ((i, j, c) # cs) s' rt pot h w"
        using inv2 len dsu_invD(2) [OF inv] unfolding dsu_inv_def by simp
      with \<open>ok\<close> show ?thesis by blast
    next
      case False
      then have "sint t \<noteq> sint (ll_of_cint c)" by (rule sint_neq)
      then have "pot i - pot j \<noteq> sint c" using st by (simp add: sint_ll_of_cint)
      from explains_same(2) [OF ex i j \<open>rt i = rt j\<close> this]
      have "\<forall>x. \<not> satisfies x ((i, j, c) # cs)" by blast
      moreover have "\<not> ok" "s' = s2" using r False by simp_all
      ultimately show ?thesis using inv2' by simp
    qed
  next
    case False
    from U False i j dlen ri len obtain t v where t: "sub_ll (diff s2 ! j) (diff s2 ! i) = Inr t"
      and v: "add_ll t (ll_of_cint c) = Inr v"
      and r: "ok" "s' = s2\<lparr>parent := (parent s2)[rt i := rt j], diff := (diff s2)[rt i := v]\<rparr>"
      by (cases "sub_ll (diff s2 ! j) (diff s2 ! i)";
          cases "add_ll (projr (sub_ll (diff s2 ! j) (diff s2 ! i))) (ll_of_cint c)")
         (auto split: if_splits)
    define d where "d = pot j - pot i + sint c"
    have sv: "sint v = d"
      using sint_add_ll [OF v] sint_sub_ll [OF t] T(10,11) by (simp add: d_def sint_ll_of_cint)
    have "forest_inv s' (merge_rt rt (rt i) (rt j)) (merge_pot rt pot (rt i) d)
            (merge_h rt h (rt i) (rt j))"
      unfolding r(2) using inv2 ri [unfolded len [symmetric]] rj [unfolded len [symmetric]] False sv
      by (rule forest_inv_merge)
    moreover have "explains ?N ((i, j, c) # cs) (merge_rt rt (rt i) (rt j))
            (merge_pot rt pot (rt i) d)"
      using ex i j False d_def by (rule explains_merge)
    moreover have "bounded ?N (length ((i, j, c) # cs)) (merge_rt rt (rt i) (rt j))
            (merge_pot rt pot (rt i) d) (merge_w w (rt i) (rt j))"
      using bounded_merge [OF bd i j False ri(1) rj(1) d_def] by simp
    moreover have "length (parent s') = ?N" using r(2) len by simp
    ultimately have "dsu_inv n ((i, j, c) # cs) s' (merge_rt rt (rt i) (rt j))
        (merge_pot rt pot (rt i) d) (merge_h rt h (rt i) (rt j)) (merge_w w (rt i) (rt j))"
      using dsu_invD(2) [OF inv] unfolding dsu_inv_def by simp
    with r(1) show ?thesis by blast
  qed
qed

subsection \<open>Every reachable state satisfies the invariant\<close>

lemma DSU_Inr:
  assumes "DSU n = Inr s"
  shows "0 \<le> n + 1" and "s = \<lparr>parent = [0..<nat (n + 1)], diff = replicate (nat (n + 1)) 0\<rparr>"
  using assms by (simp_all add: DSU_def split: if_splits)

lemma dsu_inv_fresh:
  assumes "DSU n = Inr s"
  shows "dsu_inv n [] s (\<lambda>k. k) (\<lambda>k. 0) (\<lambda>k. 0) (replicate (nat (n + 1)) 0)"
proof -
  note D = DSU_Inr [OF assms]
  have "forest_inv s (\<lambda>k. k) (\<lambda>k. 0) (\<lambda>k. 0)"
    by (rule forest_invI) (simp_all add: D(2))
  moreover have "explains (length (parent s)) [] (\<lambda>k. k) (\<lambda>k. 0)"
    by (simp add: explains_def satisfies_def)
  moreover have "bounded (length (parent s)) (length []) (\<lambda>k. k) (\<lambda>k. 0) (replicate (nat (n + 1)) 0)"
    by (simp add: bounded_def D(2))
  ultimately show ?thesis using D unfolding dsu_inv_def by simp
qed

lemma reach_inv: "reach n cs s \<Longrightarrow> \<exists>rt pot h w. dsu_inv n cs s rt pot h w"
proof (induction rule: reach.induct)
  case (fresh s)
  then show ?case by (blast intro: dsu_inv_fresh)
next
  case (after_find cs s i r s')
  then show ?case by (blast intro: dsu_inv_find)
next
  case (after_unite cs s i j c s')
  then obtain rt pot h w where "dsu_inv n cs s rt pot h w" by blast
  from unite_Inr [OF this after_unite.hyps(2)] show ?case by simp
next
  case (after_reject cs s i j c s')
  then obtain rt pot h w where "dsu_inv n cs s rt pot h w" by blast
  from unite_Inr [OF this after_reject.hyps(2)] show ?case by blast
qed

subsection \<open>No overflow\<close>

lemma in_ll_small: "\<bar>v\<bar> \<le> 2 ^ 31 * int m \<Longrightarrow> m < 2 ^ 31 \<Longrightarrow> \<bar>v\<bar> \<le> 2 ^ 62 - 2 ^ 31"
proof -
  assume a: "\<bar>v\<bar> \<le> 2 ^ 31 * int m" and m: "m < 2 ^ 31"
  from m have "int m \<le> 2 ^ 31 - 1" by simp
  then have "2 ^ 31 * int m \<le> 2 ^ 31 * (2 ^ 31 - 1)" by (rule mult_left_mono) simp
  with a show ?thesis by simp
qed

lemma in_ll_fit:
  assumes "\<bar>a\<bar> \<le> 2 ^ 62 - 2 ^ 31"
  shows "in_ll a"
  using assms unfolding in_ll_def by simp linarith

lemma in_ll_fit_diff:
  assumes "\<bar>a\<bar> \<le> 2 ^ 62 - 2 ^ 31" and "\<bar>b\<bar> \<le> 2 ^ 62 - 2 ^ 31"
  shows "in_ll (a - b)"
  using assms unfolding in_ll_def by simp linarith

lemma in_ll_fit_diff_add:
  assumes "\<bar>a\<bar> \<le> 2 ^ 62 - 2 ^ 31" and "\<bar>b\<bar> \<le> 2 ^ 62 - 2 ^ 31" and "\<bar>c\<bar> \<le> 2 ^ 31"
  shows "in_ll (a - b + c)"
  using assms unfolding in_ll_def by simp linarith

lemma dsu_inv_fits:
  assumes inv: "dsu_inv n cs s rt pot h w" and m: "length cs < 2 ^ 31"
    and k: "k < length (parent s)"
  shows "\<bar>pot k\<bar> \<le> 2 ^ 62 - 2 ^ 31"
  using bounded_pot [OF dsu_invD(4) [OF inv] dsu_invD(1) [OF inv] refl k] m
  by (rule in_ll_small)

lemma dsu_inv_in_ll:
  assumes inv: "dsu_inv n cs s rt pot h w" and m: "length cs < 2 ^ 31"
  shows "\<forall>k<length (parent s). in_ll (pot k)"
proof (intro allI impI)
  fix k assume "k < length (parent s)"
  from dsu_inv_fits [OF inv m this] show "in_ll (pot k)" by (rule in_ll_fit)
qed

lemma dsu_find_total:
  assumes inv: "dsu_inv n cs s rt pot h w" and m: "length cs < 2 ^ 31"
    and i: "i < length (parent s)"
  shows "\<exists>s'. find_dsu s i = Some (Inr (rt i, s'))"
  using dsu_invD(1) [OF inv] i dsu_inv_in_ll [OF inv m] by (rule find_dsu_total)

text \<open>With fewer than \<open>2\<^sup>3\<^sup>1\<close> accepted constraints no step of \<^verbatim>\<open>unite\<close> overflows.\<close>

lemma unite_arith:
  assumes inv: "dsu_inv n cs s rt pot h w" and m: "length cs < 2 ^ 31"
    and f1: "find_dsu s i = Some (Inr (ri, s1))"
    and f2: "find_dsu s1 j = Some (Inr (rj, s2))"
  shows "sub_ll (diff s2 ! j) (diff s2 ! i) = Inr (diff s2 ! j - diff s2 ! i)"
    and "add_ll (diff s2 ! j - diff s2 ! i) (ll_of_cint c)
          = Inr (diff s2 ! j - diff s2 ! i + ll_of_cint c)"
    and "sub_ll (diff s2 ! i) (diff s2 ! j) = Inr (diff s2 ! i - diff s2 ! j)"
proof -
  note T = two_finds [OF dsu_invD(1) [OF inv] f1 f2]
  have pi: "\<bar>pot i\<bar> \<le> 2 ^ 62 - 2 ^ 31" and pj: "\<bar>pot j\<bar> \<le> 2 ^ 62 - 2 ^ 31"
    using dsu_inv_fits [OF inv m] T(1,2) by simp_all
  have c: "\<bar>sint c\<bar> \<le> 2 ^ 31" by (rule abs_sint_cint)
  show s1: "sub_ll (diff s2 ! j) (diff s2 ! i) = Inr (diff s2 ! j - diff s2 ! i)"
    using in_ll_fit_diff [OF pj pi] T(10,11) by (simp add: sub_ll_def)
  show "sub_ll (diff s2 ! i) (diff s2 ! j) = Inr (diff s2 ! i - diff s2 ! j)"
    using in_ll_fit_diff [OF pi pj] T(10,11) by (simp add: sub_ll_def)
  have "sint (diff s2 ! j - diff s2 ! i) = pot j - pot i"
    using sint_sub_ll [OF s1] T(10,11) by simp
  then show "add_ll (diff s2 ! j - diff s2 ! i) (ll_of_cint c)
          = Inr (diff s2 ! j - diff s2 ! i + ll_of_cint c)"
    using in_ll_fit_diff_add [OF pj pi c] by (simp add: add_ll_def sint_ll_of_cint)
qed

lemma unite_result:
  assumes inv: "dsu_inv n cs s rt pot h w" and m: "length cs < 2 ^ 31"
    and f1: "find_dsu s i = Some (Inr (ri, s1))"
    and f2: "find_dsu s1 j = Some (Inr (rj, s2))"
  shows "unite s i j c =
    Some (Inr (if ri \<noteq> rj
               then (True, s2\<lparr>parent := (parent s2)[ri := rj],
                              diff := (diff s2)[ri := diff s2 ! j - diff s2 ! i + ll_of_cint c]\<rparr>)
               else (diff s2 ! i - diff s2 ! j = ll_of_cint c, s2)))"
proof -
  note T = two_finds [OF dsu_invD(1) [OF inv] f1 f2]
  have "ri < length (parent s2)"
    using forest_invD(2) [OF T(5), of i] T(1,3,6) by simp
  with unite_after_finds [OF f1 f2, of c] unite_arith(1,3) [OF inv m f1 f2]
    unite_arith(2) [OF inv m f1 f2, of c] T(1,2,6,7)
  show ?thesis by simp
qed

lemma unite_total:
  assumes inv: "dsu_inv n cs s rt pot h w" and m: "length cs < 2 ^ 31"
    and i: "i < length (parent s)" and j: "j < length (parent s)"
  shows "\<exists>ok s'. unite s i j c = Some (Inr (ok, s'))"
proof -
  from dsu_find_total [OF inv m i] obtain s1 where f1: "find_dsu s i = Some (Inr (rt i, s1))" ..
  have inv1: "dsu_inv n cs s1 rt pot h w" using inv f1 by (rule dsu_inv_find)
  have "j < length (parent s1)"
    using find_dsu_Inr(4) [OF dsu_invD(1) [OF inv] f1] j by simp
  from dsu_find_total [OF inv1 m this]
  obtain s2 where f2: "find_dsu s1 j = Some (Inr (rt j, s2))" ..
  from unite_result [OF inv m f1 f2, of c] show ?thesis by (cases "rt i = rt j") auto
qed

section \<open>The driver loop\<close>

lemma satisfies_append: "satisfies x (as @ bs) \<longleftrightarrow> satisfies x as \<and> satisfies x bs"
  by (simp add: satisfies_def)

lemma as_constraint_triple: "as_constraint (i, j, c) = (nat (sint i), nat (sint j), c)"
  by (simp add: as_constraint_def)

lemma loop_after_contradiction:
  "constraints_loop (length later) s False (tokens later @ rest) = Some (Inr (False, s, rest))"
proof (induction later)
  case Nil
  show ?case by simp
next
  case (Cons t later)
  obtain i j c where "t = (i, j, c)" by (cases t)
  with Cons show ?case by simp
qed

lemma loop_consistent:
  assumes "dsu_inv n cs0 s rt pot h w"
    and "length cs0 + length cs < 2 ^ 31"
    and "list_all (valid_ids n) cs"
  shows "\<exists>s'. constraints_loop (length cs) s True (tokens cs @ rest)
           = Some (Inr (\<exists>x. satisfies x (rev (map as_constraint cs) @ cs0), s', rest))"
  using assms
proof (induction cs arbitrary: s cs0 rt pot h w)
  case Nil
  have "satisfies pot cs0" using dsu_invD(3) [OF Nil(1)] by (rule explains_pot)
  then have "\<exists>x. satisfies x cs0" by blast
  then show ?case by simp
next
  case (Cons t cs)
  obtain i j c where t: "t = (i, j, c)" by (cases t)
  let ?i = "nat (sint i)" and ?j = "nat (sint j)"
  have "valid_ids n (i, j, c)" using Cons.prems(3) by (simp add: t)
  then have v: "0 \<le> sint i" "sint i \<le> n" "0 \<le> sint j" "sint j \<le> n"
    by (simp_all add: valid_ids_def)
  have ids: "0 \<le> sint i" "0 \<le> sint j" "?i < length (parent s)" "?j < length (parent s)"
    using v dsu_invD(2) [OF Cons.prems(1)] by linarith+
  have m: "length cs0 < 2 ^ 31" using Cons.prems(2) by simp
  from unite_total [OF Cons.prems(1) m ids(3,4), of c]
  obtain ok s1 where u: "unite s ?i ?j c = Some (Inr (ok, s1))" by blast
  note U = unite_Inr [OF Cons.prems(1) u]
  show ?case
  proof (cases ok)
    case True
    with U obtain rt' pot' h' w' where inv': "dsu_inv n ((?i, ?j, c) # cs0) s1 rt' pot' h' w'"
      by blast
    have "length ((?i, ?j, c) # cs0) + length cs < 2 ^ 31" using Cons.prems(2) by simp
    moreover have "list_all (valid_ids n) cs" using Cons.prems(3) by simp
    ultimately obtain s' where "constraints_loop (length cs) s1 True (tokens cs @ rest)
           = Some (Inr (\<exists>x. satisfies x (rev (map as_constraint cs) @ (?i, ?j, c) # cs0), s', rest))"
      using Cons.IH [OF inv'] by blast
    with u True ids(1,2) show ?thesis by (simp add: t as_constraint_triple)
  next
    case False
    with U have "\<not> satisfies x ((?i, ?j, c) # cs0)" for x by blast
    then have "\<not> (\<exists>x. satisfies x (rev (map as_constraint (t # cs)) @ cs0))"
      by (simp add: t as_constraint_triple satisfies_append)
    moreover have "constraints_loop (length (t # cs)) s True (tokens (t # cs) @ rest)
        = Some (Inr (False, s1, rest))"
      using u False ids(1,2) loop_after_contradiction [of cs s1 rest] by (simp add: t)
    ultimately show ?thesis by simp
  qed
qed

section \<open>The example, evaluated\<close>

lemma ex_DSU: "DSU 3 = Inr ex0"
  by code_simp

lemma ex_unite1: "unite ex0 1 2 5 = Some (Inr (True, ex1))"
  by code_simp

lemma ex_unite2: "unite ex1 2 3 3 = Some (Inr (True, ex2))"
  by code_simp

lemma ex_find: "find_dsu ex2 1 = Some (Inr (3, ex3))"
  by code_simp

lemma ex_find_again: "find_dsu ex3 3 = Some (Inr (3, ex3))"
  by code_simp

lemma ex_reach0: "reach 3 [] ex0"
  using ex_DSU by (rule reach.fresh)

lemma ex_reach1: "reach 3 [(1, 2, 5)] ex1"
  using ex_reach0 ex_unite1 by (rule reach.after_unite)

lemma ex_reach2: "reach 3 [(2, 3, 3), (1, 2, 5)] ex2"
  using ex_reach1 ex_unite2 by (rule reach.after_unite)

lemma ex_path: "path_to_root ex2 1 = Some [1, 2, 3]"
  by code_simp

lemma ex_root: "root_of ex2 1 = Some 3"
  by code_simp

lemma ex_sum: "offset_sum ex2 1 = Some 8" "offset_sum ex2 2 = Some 3" "offset_sum ex2 3 = Some 0"
  by code_simp+

lemma loop_prefix:
  "constraints_loop (length pre) s0 ok0 (tokens pre @ inp) = Some (Inr (ok, s, inp)) \<Longrightarrow>
   constraints_loop (length pre + k) s0 ok0 (tokens pre @ inp) = constraints_loop k s ok inp"
proof (induction pre arbitrary: s0 ok0)
  case Nil
  then show ?case by simp
next
  case (Cons t pre)
  obtain i j c where t: "t = (i, j, c)" by (cases t)
  show ?case
  proof (cases ok0)
    case False
    with Cons.prems Cons.IH [of s0 False] show ?thesis by (simp add: t)
  next
    case True
    show ?thesis
    proof (cases "unite s0 (nat (sint i)) (nat (sint j)) c")
      case None
      with Cons.prems True show ?thesis by (simp add: t split: if_splits)
    next
      case (Some res)
      show ?thesis
      proof (cases res)
        case (Inl e)
        with Some Cons.prems True show ?thesis by (simp add: t split: if_splits)
      next
        case (Inr p)
        obtain b s1 where p: "p = (b, s1)" by (cases p)
        from Cons.prems True Some Inr p
        have "constraints_loop (length pre) s1 b (tokens pre @ inp) = Some (Inr (ok, s, inp))"
          and ids: "\<not> (sint i < 0 \<or> sint j < 0)"
          by (auto simp: t split: if_splits)
        from Cons.IH [OF this(1)] ids True Some Inr p show ?thesis
          by (cases b) (simp_all add: t)
      qed
    qed
  qed
qed

section \<open>The claims\<close>

text \<open>
  Claim C1. For a test case with \<open>n\<close> elements and \<open>m\<close> constraints whose element ids lie in
  \<open>0..n\<close>, \<^verbatim>\<open>solve\<close> reads exactly the test case and prints one line: \<^verbatim>\<open>YES\<close> if some
  integer assignment satisfies all the constraints, \<^verbatim>\<open>NO\<close> otherwise. (\<open>n + 1\<close> has to be
  an \<^verbatim>\<open>int\<close>, see the constructor.)
\<close>

theorem solve_verdict:
  assumes "0 \<le> sint n" and "sint n < 2 ^ 31 - 1" and "sint m = int (length cs)"
    and "list_all (valid_ids (sint n)) cs"
  shows "solve (n # m # tokens cs @ rest) =
    Some (Inr (if \<exists>x. satisfies x (map as_constraint cs) then ''YES'' @ [CHR 0x0A]
               else ''NO'' @ [CHR 0x0A], rest))"
proof -
  let ?s = "\<lparr>parent = [0..<nat (sint n + 1)], diff = replicate (nat (sint n + 1)) 0\<rparr>"
  have D: "DSU (sint n) = Inr ?s"
    using assms(1,2) by (simp add: DSU_def in_cint_def)
  note inv = dsu_inv_fresh [OF D]
  have "int (length cs) < 2 ^ 31" using sint_lt [of m] assms(3) by simp
  then have len: "length [] + length cs < 2 ^ 31" by simp
  from loop_consistent [OF inv len assms(4), of rest]
  obtain s' where "constraints_loop (length cs) ?s True (tokens cs @ rest)
      = Some (Inr (\<exists>x. satisfies x (rev (map as_constraint cs) @ []), s', rest))" by blast
  moreover have "satisfies x (rev (map as_constraint cs)) = satisfies x (map as_constraint cs)" for x
    by (simp add: satisfies_def)
  moreover have "nat (sint m) = length cs" using assms(3) by simp
  ultimately show ?thesis using D by (simp add: solve_def)
qed

theorem solve_verdict_witness:
  "0 \<le> sint (3 :: cint) \<and> sint (3 :: cint) < 2 ^ 31 - 1 \<and>
   sint (3 :: cint) = int (length ([(1, 2, 5), (2, 3, 3), (1, 3, 8)] :: (cint \<times> cint \<times> cint) list)) \<and>
   list_all (valid_ids (sint (3 :: cint))) [(1, 2, 5), (2, 3, 3), (1, 3, 8)] \<and>
   solve (3 # 3 # tokens [(1, 2, 5), (2, 3, 3), (1, 3, 8)] @ [7]) =
     Some (Inr (''YES'' @ [CHR 0x0A], [7])) \<and>
   (\<exists>x. satisfies x (map as_constraint [(1, 2, 5), (2, 3, 3), (1, 3, 8)]))"
proof -
  have h: "0 \<le> sint (3 :: cint)" "sint (3 :: cint) < 2 ^ 31 - 1"
    "sint (3 :: cint) = int (length ([(1, 2, 5), (2, 3, 3), (1, 3, 8)] :: (cint \<times> cint \<times> cint) list))"
    "list_all (valid_ids (sint (3 :: cint))) [(1, 2, 5), (2, 3, 3), (1, 3, 8)]"
    by (simp_all add: valid_ids_def)
  have e: "solve (3 # 3 # tokens [(1, 2, 5), (2, 3, 3), (1, 3, 8)] @ [7]) =
     Some (Inr (''YES'' @ [CHR 0x0A], [7]))" by code_simp
  from solve_verdict [OF h, of "[7]"] e
  have "\<exists>x. satisfies x (map as_constraint [(1, 2, 5), (2, 3, 3), (1, 3, 8)])"
    by (auto split: if_splits)
  with h e show ?thesis by blast
qed

text \<open>
  Claim C2. After every completed \<^verbatim>\<open>find\<close> or \<^verbatim>\<open>unite\<close>, for every element \<open>i\<close> the parent
  pointers lead to a root \<open>r\<close>, and the offsets along that path add up, as integers, to
  \<open>x\<^sub>i - x\<^sub>r\<close> for every assignment \<open>x\<close> that satisfies the constraints accepted so far: the
  sum is the difference those constraints imply.
\<close>

theorem offsets_are_implied_differences:
  assumes "reach n cs s" and "int i \<le> n" and "satisfies x cs"
  shows "\<exists>r. root_of s i = Some r \<and> offset_sum s i = Some (x i - x r)"
proof -
  from reach_inv [OF assms(1)] obtain rt pot h w where inv: "dsu_inv n cs s rt pot h w" by blast
  note F = dsu_invD(1) [OF inv]
  have i: "i < length (parent s)" using dsu_invD(2) [OF inv] assms(2) by linarith
  have "x i - x (rt i) = pot i"
    using dsu_invD(3) [OF inv] assms(3) i unfolding explains_def by blast
  with forest_observe [OF F i] show ?thesis by simp
qed

theorem offsets_are_implied_differences_witness:
  "reach 3 [(2, 3, 3), (1, 2, 5)] ex2 \<and> int 1 \<le> 3 \<and>
   satisfies (\<lambda>k. [0, 18, 13, 10] ! k) [(2, 3, 3), (1, 2, 5)] \<and>
   root_of ex2 1 = Some 3 \<and> offset_sum ex2 1 = Some ([0, 18, 13, 10] ! 1 - [0, 18, 13, 10] ! 3)"
proof -
  have sat: "satisfies (\<lambda>k. [0, 18, 13, 10] ! k) [(2, 3, 3), (1, 2, 5)]"
    by (simp add: satisfies_def)
  from offsets_are_implied_differences [OF ex_reach2 _ sat, of 1] ex_root ex_reach2 sat
  show ?thesis by simp
qed

text \<open>
  Claim C3. When the two calls of \<^verbatim>\<open>find\<close> in \<^verbatim>\<open>unite(i, j, c)\<close> return distinct roots
  \<open>ri\<close> and \<open>rj\<close>, \<^verbatim>\<open>unite\<close> returns true whatever \<open>c\<close> is, and changes the structure those
  calls left in two places only: \<open>ri\<close> gets the parent \<open>rj\<close> and the offset
  \<open>c + off\<^sub>j - off\<^sub>i\<close>, where \<open>off\<^sub>i\<close> and \<open>off\<^sub>j\<close> are the offsets of \<open>i\<close> and \<open>j\<close> to
  their roots. The state is a reachable one with fewer than \<open>2\<^sup>3\<^sup>1\<close> accepted constraints
  (the number of constraints of a test case is an \<^verbatim>\<open>int\<close>), so that no step overflows.
\<close>

theorem unite_distinct_roots:
  assumes "reach n cs s" and "length cs < 2 ^ 31"
    and "find_dsu s i = Some (Inr (ri, s1))" and "find_dsu s1 j = Some (Inr (rj, s2))"
    and "ri \<noteq> rj"
  shows "\<exists>v. unite s i j c =
            Some (Inr (True, s2\<lparr>parent := (parent s2)[ri := rj], diff := (diff s2)[ri := v]\<rparr>)) \<and>
          sint v = sint c + sint (diff s2 ! j) - sint (diff s2 ! i) \<and>
          offset_sum s i = Some (sint (diff s2 ! i)) \<and>
          offset_sum s j = Some (sint (diff s2 ! j))"
proof -
  from reach_inv [OF assms(1)] obtain rt pot h w where inv: "dsu_inv n cs s rt pot h w" by blast
  note F = dsu_invD(1) [OF inv]
  note T = two_finds [OF F assms(3,4)]
  let ?v = "diff s2 ! j - diff s2 ! i + ll_of_cint c"
  have "unite s i j c =
      Some (Inr (True, s2\<lparr>parent := (parent s2)[ri := rj], diff := (diff s2)[ri := ?v]\<rparr>))"
    using unite_result [OF inv assms(2,3,4), of c] assms(5) by simp
  moreover have "sint ?v = sint c + sint (diff s2 ! j) - sint (diff s2 ! i)"
    using sint_add_ll [OF unite_arith(2) [OF inv assms(2,3,4), of c]]
      sint_sub_ll [OF unite_arith(1) [OF inv assms(2,3,4)]]
    by (simp add: sint_ll_of_cint)
  moreover have "offset_sum s i = Some (sint (diff s2 ! i))"
    using forest_observe [OF F T(1)] T(10) by simp
  moreover have "offset_sum s j = Some (sint (diff s2 ! j))"
    using forest_observe [OF F T(2)] T(11) by simp
  ultimately show ?thesis by blast
qed

theorem unite_distinct_roots_witness:
  "reach 3 [(1, 2, 5)] ex1 \<and> length [(1, 2, 5) :: constraint] < 2 ^ 31 \<and>
   find_dsu ex1 2 = Some (Inr (2, ex1)) \<and> find_dsu ex1 3 = Some (Inr (3, ex1)) \<and>
   (2 :: nat) \<noteq> 3 \<and>
   unite ex1 2 3 3 = Some (Inr (True, ex2)) \<and>
   sint (diff ex2 ! 2) = sint (3 :: cint) + sint (diff ex1 ! 3) - sint (diff ex1 ! 2)"
proof -
  have f: "find_dsu ex1 2 = Some (Inr (2, ex1))" "find_dsu ex1 3 = Some (Inr (3, ex1))"
    by code_simp+
  have m: "length [(1, 2, 5) :: constraint] < 2 ^ 31" by simp
  from unite_distinct_roots [OF ex_reach1 m f, of 3] ex_unite2 ex_reach1 f
  show ?thesis by auto
qed

text \<open>
  Claim C4. When the two calls of \<^verbatim>\<open>find\<close> in \<^verbatim>\<open>unite(i, j, c)\<close> return the same root,
  \<^verbatim>\<open>unite\<close> returns false exactly when \<open>off\<^sub>i - off\<^sub>j \<noteq> c\<close>, and the structure it leaves is
  the one the two calls of \<^verbatim>\<open>find\<close> left.
\<close>

theorem unite_same_root:
  assumes "reach n cs s" and "length cs < 2 ^ 31"
    and "find_dsu s i = Some (Inr (r, s1))" and "find_dsu s1 j = Some (Inr (r, s2))"
  shows "unite s i j c = Some (Inr (sint (diff s2 ! i) - sint (diff s2 ! j) = sint c, s2))"
proof -
  from reach_inv [OF assms(1)] obtain rt pot h w where inv: "dsu_inv n cs s rt pot h w" by blast
  have "sint (diff s2 ! i - diff s2 ! j) = sint (diff s2 ! i) - sint (diff s2 ! j)"
    using unite_arith(3) [OF inv assms(2,3,4)] by (rule sint_sub_ll)
  then have "diff s2 ! i - diff s2 ! j = ll_of_cint c
      \<longleftrightarrow> sint (diff s2 ! i) - sint (diff s2 ! j) = sint c"
    using sint_neq [of "diff s2 ! i - diff s2 ! j" "ll_of_cint c"]
    by (auto simp: sint_ll_of_cint)
  with unite_result [OF inv assms(2,3,4), of c] show ?thesis by simp
qed

theorem unite_same_root_witness:
  "reach 3 [(2, 3, 3), (1, 2, 5)] ex2 \<and> length [(2, 3, 3), (1, 2, 5) :: constraint] < 2 ^ 31 \<and>
   find_dsu ex2 1 = Some (Inr (3, ex3)) \<and> find_dsu ex3 3 = Some (Inr (3, ex3)) \<and>
   unite ex2 1 3 9 = Some (Inr (False, ex3)) \<and> unite ex2 1 3 8 = Some (Inr (True, ex3))"
proof -
  have m: "length [(2, 3, 3), (1, 2, 5) :: constraint] < 2 ^ 31" by simp
  from unite_same_root [OF ex_reach2 m ex_find ex_find_again, of 9]
    unite_same_root [OF ex_reach2 m ex_find ex_find_again, of 8]
    ex_reach2 ex_find ex_find_again
  show ?thesis by simp
qed

text \<open>
  Claim C5. Once \<^verbatim>\<open>unite\<close> has reported a contradiction, the loop reads the remaining
  constraints of the test case, whatever they are, leaves the structure as that call of
  \<^verbatim>\<open>unite\<close> left it, and the test case is answered \<^verbatim>\<open>NO\<close>.
\<close>

theorem contradiction_fixes_verdict:
  assumes "unite s (nat (sint i)) (nat (sint j)) c = Some (Inr (False, s'))"
    and "0 \<le> sint i" and "0 \<le> sint j"
    and "DSU (sint n) = Inr s0"
    and "constraints_loop (length pre) s0 True (tokens pre @ i # j # c # tokens later @ rest)
          = Some (Inr (True, s, i # j # c # tokens later @ rest))"
    and "nat (sint m) = length pre + Suc (length later)"
  shows "constraints_loop (Suc (length later)) s True (i # j # c # tokens later @ rest)
          = Some (Inr (False, s', rest)) \<and>
         solve (n # m # tokens pre @ i # j # c # tokens later @ rest)
          = Some (Inr (''NO'' @ [CHR 0x0A], rest))"
proof -
  have a: "constraints_loop (Suc (length later)) s True (i # j # c # tokens later @ rest)
          = Some (Inr (False, s', rest))"
    using assms(1,2,3) loop_after_contradiction [of later s' rest] by simp
  with loop_prefix [OF assms(5), of "Suc (length later)"] assms(4,6)
  show ?thesis by (simp add: solve_def)
qed

theorem contradiction_fixes_verdict_witness:
  "unite ex2 (nat (sint (1 :: cint))) (nat (sint (3 :: cint))) 9 = Some (Inr (False, ex3)) \<and>
   0 \<le> sint (1 :: cint) \<and> 0 \<le> sint (3 :: cint) \<and> DSU (sint (3 :: cint)) = Inr ex0 \<and>
   constraints_loop (length ([(1, 2, 5), (2, 3, 3)] :: (cint \<times> cint \<times> cint) list)) ex0 True
      (tokens [(1, 2, 5), (2, 3, 3)] @ 1 # 3 # 9 # tokens [(9, 9, 9), (1, 3, 8)] @ [7])
     = Some (Inr (True, ex2, 1 # 3 # 9 # tokens [(9, 9, 9), (1, 3, 8)] @ [7])) \<and>
   nat (sint (5 :: cint)) = length ([(1, 2, 5), (2, 3, 3)] :: (cint \<times> cint \<times> cint) list)
      + Suc (length ([(9, 9, 9), (1, 3, 8)] :: (cint \<times> cint \<times> cint) list)) \<and>
   constraints_loop (Suc (length ([(9, 9, 9), (1, 3, 8)] :: (cint \<times> cint \<times> cint) list))) ex2 True
      (1 # 3 # 9 # tokens [(9, 9, 9), (1, 3, 8)] @ [7]) = Some (Inr (False, ex3, [7])) \<and>
   solve (3 # 5 # tokens [(1, 2, 5), (2, 3, 3)] @ 1 # 3 # 9 # tokens [(9, 9, 9), (1, 3, 8)] @ [7])
     = Some (Inr (''NO'' @ [CHR 0x0A], [7]))"
proof -
  have u: "unite ex2 (nat (sint (1 :: cint))) (nat (sint (3 :: cint))) 9 = Some (Inr (False, ex3))"
    by code_simp
  have i: "0 \<le> sint (1 :: cint)" and j: "0 \<le> sint (3 :: cint)" by simp_all
  have d: "DSU (sint (3 :: cint)) = Inr ex0" by code_simp
  have l: "constraints_loop (length ([(1, 2, 5), (2, 3, 3)] :: (cint \<times> cint \<times> cint) list)) ex0 True
      (tokens [(1, 2, 5), (2, 3, 3)] @ 1 # 3 # 9 # tokens [(9, 9, 9), (1, 3, 8)] @ [7])
     = Some (Inr (True, ex2, 1 # 3 # 9 # tokens [(9, 9, 9), (1, 3, 8)] @ [7]))"
    by code_simp
  have m: "nat (sint (5 :: cint)) = length ([(1, 2, 5), (2, 3, 3)] :: (cint \<times> cint \<times> cint) list)
      + Suc (length ([(9, 9, 9), (1, 3, 8)] :: (cint \<times> cint \<times> cint) list))" by simp
  from contradiction_fixes_verdict [OF u i j d l m] u i j d l m show ?thesis by blast
qed

text \<open>
  Claim C6. In a reachable state with fewer than \<open>2\<^sup>3\<^sup>1\<close> accepted constraints, \<^verbatim>\<open>find(i)\<close>
  returns for every valid element \<open>i\<close>; it returns the root reached from \<open>i\<close>, and every
  node \<open>k\<close> on the path from \<open>i\<close> other than the root then has the root as its parent and
  stores the sum of the offsets that led from \<open>k\<close> to the root before the call.
\<close>

theorem find_compresses:
  assumes "reach n cs s" and "length cs < 2 ^ 31" and "int i \<le> n"
  shows "\<exists>r s'. find_dsu s i = Some (Inr (r, s')) \<and> root_of s i = Some r \<and>
    (\<exists>p. path_to_root s i = Some p \<and>
      (\<forall>k\<in>set p. k \<noteq> r \<longrightarrow>
         parent s' ! k = r \<and> offset_sum s k = Some (sint (diff s' ! k))))"
proof -
  from reach_inv [OF assms(1)] obtain rt pot h w where inv: "dsu_inv n cs s rt pot h w" by blast
  note F = dsu_invD(1) [OF inv]
  have i: "i < length (parent s)" using dsu_invD(2) [OF inv] assms(3) by linarith
  from dsu_find_total [OF inv assms(2) i]
  obtain s' where res: "find_dsu s i = Some (Inr (rt i, s'))" ..
  note R = find_dsu_Inr [OF F res]
  from forest_observe [OF F i] obtain p where root: "root_of s i = Some (rt i)"
    and p: "path_to_root s i = Some p"
    and on: "\<forall>k\<in>set p. k < length (parent s) \<and> rt k = rt i" by blast
  have "parent s' ! k = rt i \<and> offset_sum s k = Some (sint (diff s' ! k))"
    if k: "k \<in> set p" for k
  proof -
    have kN: "k < length (parent s)" and rk: "rt k = rt i" using on k by simp_all
    have c: "parent s' ! k = rt k" using p k by (rule R(7))
    have "sint (diff s' ! k) = pot k"
      using R(3) _ c by (rule forest_compressed) (simp add: R(4) kN)
    moreover have "offset_sum s k = Some (pot k)" using forest_observe [OF F kN] by simp
    ultimately show ?thesis using c rk by simp
  qed
  with res root p show ?thesis by blast
qed

theorem find_compresses_witness:
  "reach 3 [(2, 3, 3), (1, 2, 5)] ex2 \<and> length [(2, 3, 3), (1, 2, 5) :: constraint] < 2 ^ 31 \<and>
   int 1 \<le> 3 \<and>
   find_dsu ex2 1 = Some (Inr (3, ex3)) \<and> root_of ex2 1 = Some 3 \<and>
   path_to_root ex2 1 = Some [1, 2, 3] \<and>
   parent ex3 ! 1 = 3 \<and> offset_sum ex2 1 = Some (sint (diff ex3 ! 1)) \<and>
   parent ex3 ! 2 = 3 \<and> offset_sum ex2 2 = Some (sint (diff ex3 ! 2))"
proof -
  have m: "length [(2, 3, 3), (1, 2, 5) :: constraint] < 2 ^ 31" by simp
  from find_compresses [OF ex_reach2 m, of 1] ex_reach2 ex_find ex_path
  show ?thesis by auto
qed

text \<open>
  Claim C7. The offsets fit the 64-bit accumulator: in a reachable state with fewer than
  \<open>2\<^sup>3\<^sup>1\<close> accepted constraints the offset of every element to its root is at most
  \<open>2\<^sup>3\<^sup>1\<close> times the number of constraints in magnitude, and neither \<^verbatim>\<open>find\<close> nor \<^verbatim>\<open>unite\<close>,
  for any constraint value \<open>c\<close>, runs into an addition or subtraction that overflows
  \<^verbatim>\<open>long long\<close>: both return.
\<close>

theorem no_overflow:
  assumes "reach n cs s" and "length cs < 2 ^ 31" and "int i \<le> n" and "int j \<le> n"
  shows "(\<exists>v. offset_sum s i = Some v \<and> \<bar>v\<bar> \<le> 2 ^ 31 * int (length cs) \<and> in_ll v) \<and>
         (\<exists>r s'. find_dsu s i = Some (Inr (r, s'))) \<and>
         (\<exists>ok s'. unite s i j c = Some (Inr (ok, s')))"
proof -
  from reach_inv [OF assms(1)] obtain rt pot h w where inv: "dsu_inv n cs s rt pot h w" by blast
  note F = dsu_invD(1) [OF inv]
  have i: "i < length (parent s)" and j: "j < length (parent s)"
    using dsu_invD(2) [OF inv] assms(3,4) by linarith+
  have "offset_sum s i = Some (pot i)" using forest_observe [OF F i] by simp
  moreover have "\<bar>pot i\<bar> \<le> 2 ^ 31 * int (length cs)"
    using dsu_invD(4) [OF inv] F refl i by (rule bounded_pot)
  moreover have "in_ll (pot i)" using dsu_inv_in_ll [OF inv assms(2)] i by simp
  moreover have "\<exists>r s'. find_dsu s i = Some (Inr (r, s'))"
    using dsu_find_total [OF inv assms(2) i] by blast
  moreover have "\<exists>ok s'. unite s i j c = Some (Inr (ok, s'))"
    using inv assms(2) i j by (rule unite_total)
  ultimately show ?thesis by simp
qed

theorem no_overflow_witness:
  "reach 3 [(2, 3, 3), (1, 2, 5)] ex2 \<and> length [(2, 3, 3), (1, 2, 5) :: constraint] < 2 ^ 31 \<and>
   int 1 \<le> 3 \<and> int 3 \<le> 3 \<and>
   offset_sum ex2 1 = Some 8 \<and> \<bar>8 :: int\<bar> \<le> 2 ^ 31 * int (length [(2, 3, 3), (1, 2, 5) :: constraint]) \<and>
   (\<exists>r s'. find_dsu ex2 1 = Some (Inr (r, s'))) \<and>
   (\<exists>ok s'. unite ex2 1 3 (- 2147483648) = Some (Inr (ok, s')))"
proof -
  have m: "length [(2, 3, 3), (1, 2, 5) :: constraint] < 2 ^ 31" by simp
  from no_overflow [OF ex_reach2 m, of 1 3 "- 2147483648"] ex_reach2 ex_sum(1)
  show ?thesis by simp
qed

text \<open>
  Claim C8. A second \<^verbatim>\<open>find\<close> on the same element, with no \<^verbatim>\<open>unite\<close> in between, returns
  the same root and leaves the whole structure, so also the stored offset of the element,
  as the first call left it. The state after the first call is again reachable, so the same
  holds for every later call.
\<close>

theorem find_idempotent:
  assumes "reach n cs s" and "find_dsu s i = Some (Inr (r, s'))"
  shows "find_dsu s' i = Some (Inr (r, s'))"
proof -
  from reach_inv [OF assms(1)] obtain rt pot h w where inv: "dsu_inv n cs s rt pot h w" by blast
  note R = find_dsu_Inr [OF dsu_invD(1) [OF inv] assms(2)]
  note inv' = R(3)
  have i: "i < length (parent s')" using R(1,4) by simp
  have r: "r < length (parent s')" "parent s' ! r = r"
    using forest_invD(2,3) [OF inv' i] R(2) by simp_all
  show ?thesis
  proof (cases "r = i")
    case True
    with r show ?thesis by (simp add: find_dsu_root)
  next
    case False
    have p: "parent s' ! i = r" using R(2,5) by simp
    have "diff s' ! r = 0" using inv' r by (rule forest_diff_root)
    then have a: "add_ll (diff s' ! i) (diff s' ! r) = Inr (diff s' ! i)"
      using sint_ge [of "diff s' ! i"] sint_lt [of "diff s' ! i"]
      by (simp add: add_ll_def in_ll_def)
    have ne: "parent s' ! i \<noteq> i" using p False by simp
    have "find_dsu s' i =
        Some (Inr (r, s'\<lparr>diff := (diff s')[i := diff s' ! i], parent := (parent s')[i := r]\<rparr>))"
      using find_dsu_step [OF i ne] find_dsu_root [OF r] a i r(1) forest_inv_length [OF inv']
      by (simp add: p)
    moreover have "(diff s')[i := diff s' ! i] = diff s'" "(parent s')[i := r] = parent s'"
      using p [symmetric] by simp_all
    ultimately show ?thesis by simp
  qed
qed

theorem find_idempotent_witness:
  "reach 3 [(2, 3, 3), (1, 2, 5)] ex2 \<and> find_dsu ex2 1 = Some (Inr (3, ex3)) \<and>
   find_dsu ex3 1 = Some (Inr (3, ex3))"
  using find_idempotent [OF ex_reach2 ex_find] ex_reach2 ex_find by simp

text \<open>
  Claim C9. In every reachable state \<^verbatim>\<open>find(i)\<close> returns for every valid element \<open>i\<close>
  (the result is never \<open>None\<close>), and the chain of parent pointers from \<open>i\<close> is finite,
  meets no node twice and ends in a root: no call of \<^verbatim>\<open>unite\<close> has closed a cycle.
\<close>

theorem find_terminates:
  assumes "reach n cs s" and "int i \<le> n"
  shows "(\<exists>res. find_dsu s i = Some res) \<and>
         (\<exists>p r. path_to_root s i = Some p \<and> distinct p \<and> hd p = i \<and> last p = r \<and>
                parent s ! r = r)"
proof -
  from reach_inv [OF assms(1)] obtain rt pot h w where inv: "dsu_inv n cs s rt pot h w" by blast
  note F = dsu_invD(1) [OF inv]
  have i: "i < length (parent s)" using dsu_invD(2) [OF inv] assms(2) by linarith
  have "find_dsu s i \<noteq> None" using F by (rule find_dsu_not_None)
  moreover have "\<exists>p r. path_to_root s i = Some p \<and> distinct p \<and> hd p = i \<and> last p = r \<and>
                parent s ! r = r"
    using forest_path_distinct [OF F i] forest_invD(3) [OF F i] by auto
  ultimately show ?thesis by blast
qed

theorem find_terminates_witness:
  "reach 3 [(2, 3, 3), (1, 2, 5)] ex2 \<and> int 1 \<le> 3 \<and>
   find_dsu ex2 1 = Some (Inr (3, ex3)) \<and>
   path_to_root ex2 1 = Some [1, 2, 3] \<and> distinct [1, 2, 3 :: nat] \<and> parent ex2 ! 3 = 3"
  using find_terminates [OF ex_reach2, of 1] ex_reach2 ex_find ex_path by simp

text \<open>
  Claim C10. In every state reachable from a freshly constructed \<^verbatim>\<open>DSU\<close> by calls of
  \<^verbatim>\<open>find\<close> and \<^verbatim>\<open>unite\<close>, every root (an element that is its own parent) has the
  offset 0.
\<close>

theorem root_offset_zero:
  assumes "reach n cs s" and "r < length (parent s)" and "parent s ! r = r"
  shows "diff s ! r = 0"
proof -
  from reach_inv [OF assms(1)] obtain rt pot h w where "dsu_inv n cs s rt pot h w" by blast
  then have "forest_inv s rt pot h" by (rule dsu_invD(1))
  then show ?thesis using assms(2,3) by (rule forest_diff_root)
qed

theorem root_offset_zero_witness:
  "reach 3 [(2, 3, 3), (1, 2, 5)] ex2 \<and> 3 < length (parent ex2) \<and> parent ex2 ! 3 = 3 \<and>
   diff ex2 ! 3 = 0"
  using root_offset_zero [OF ex_reach2, of 3] ex_reach2 by simp

end
